theory Spec2Isabelle
  imports Complex_Main
begin

section \<open>Editor content and its JSON serialisation\<close>

subsection \<open>Numbers\<close>

text \<open>
  \<open>Number::toString\<close> writes a finite number other than zero from its sign and the
  integers \<open>s\<close>, \<open>k\<close> and \<open>n\<close> with \<open>k \<ge> 1\<close>, \<open>10^(k-1) \<le> s < 10^k\<close>, \<open>s * 10^(n-k)\<close> the
  magnitude and \<open>k\<close> as small as possible. So \<open>s\<close> does not end in the digit 0, and the
  number is identified by the sign, \<open>s\<close> and \<open>n\<close>: \<open>Decimal negative q d n\<close> is the number with
  \<open>s = 10 * q + d\<close>, the last digit \<open>d\<close> being one of 1 to 9. Every finite double other than
  zero is such a number.
\<close>

datatype nonzero_digit = D1 | D2 | D3 | D4 | D5 | D6 | D7 | D8 | D9

fun digit_value :: "nonzero_digit \<Rightarrow> nat" where
  "digit_value D1 = 1"
| "digit_value D2 = 2"
| "digit_value D3 = 3"
| "digit_value D4 = 4"
| "digit_value D5 = 5"
| "digit_value D6 = 6"
| "digit_value D7 = 7"
| "digit_value D8 = 8"
| "digit_value D9 = 9"

datatype finite_number = Zero | Decimal bool nat nonzero_digit int

definition significand :: "nat \<Rightarrow> nonzero_digit \<Rightarrow> nat" where
  "significand q d = 10 * q + digit_value d"

definition digit_char :: "nat \<Rightarrow> char" where
  "digit_char d = char_of (48 + d)"

fun digits :: "nat \<Rightarrow> string" where
  "digits n = (if n < 10 then [digit_char n] else digits (n div 10) @ [digit_char (n mod 10)])"

declare digits.simps [simp del]

text \<open>The digits of \<open>s\<close> in exponent form: a point after the first digit if there are more.\<close>

definition mantissa :: "string \<Rightarrow> string" where
  "mantissa ds = (case ds of [] \<Rightarrow> [] | c # cs \<Rightarrow> if cs = [] then [c] else c # CHR ''.'' # cs)"

text \<open>
  Steps 6 to 10 of \<open>Number::toString\<close> for radix 10: plain decimal notation for \<open>n\<close> from
  \<open>-5\<close> to \<open>21\<close>, exponent notation otherwise.
\<close>

definition positive_toString :: "nat \<Rightarrow> int \<Rightarrow> string" where
  "positive_toString s n =
     (let ds = digits s; k = int (length ds)
      in if - 5 \<le> n \<and> n \<le> 21 then
           (if n \<ge> k then ds @ replicate (nat (n - k)) CHR ''0''
            else if n > 0 then take (nat n) ds @ CHR ''.'' # drop (nat n) ds
            else CHR ''0'' # CHR ''.'' # replicate (nat (- n)) CHR ''0'' @ ds)
         else mantissa ds @ CHR ''e'' # (if n < 0 then CHR ''-'' else CHR ''+'') #
                digits (nat \<bar>n - 1\<bar>))"

fun Number_toString :: "finite_number \<Rightarrow> string" where
  "Number_toString Zero = ''0''"
| "Number_toString (Decimal negative q d n) =
     (if negative then ''-'' else []) @ positive_toString (significand q d) n"

subsection \<open>Parsed JSON\<close>

text \<open>
  What \<open>JSON.parse\<close> returns, and so what a snapshot holds: null, booleans, finite numbers,
  strings, arrays and objects. An object keeps its properties in the order
  \<open>JSON.stringify\<close> writes them in, so it is an association list.
\<close>

datatype json =
    JNull
  | JBool bool
  | JNum finite_number
  | JStr string
  | JArr "json list"
  | JObj "(string \<times> json) list"

definition hex_char :: "nat \<Rightarrow> char" where
  "hex_char d = (if d < 10 then char_of (48 + d) else char_of (87 + d))"

text \<open>
  \<open>QuoteJSONString\<close>: the quotation mark and the backslash are escaped with a backslash,
  the control characters below U+0020 by their short form or as \<open>\u00XX\<close>.
\<close>

definition escape_char :: "char \<Rightarrow> string" where
  "escape_char c =
     (if c = CHR 0x22 then [CHR 0x5C, CHR 0x22]
      else if c = CHR 0x5C then [CHR 0x5C, CHR 0x5C]
      else if c = CHR 0x08 then [CHR 0x5C, CHR ''b'']
      else if c = CHR 0x0C then [CHR 0x5C, CHR ''f'']
      else if c = CHR 0x0A then [CHR 0x5C, CHR ''n'']
      else if c = CHR 0x0D then [CHR 0x5C, CHR ''r'']
      else if c = CHR 0x09 then [CHR 0x5C, CHR ''t'']
      else if (of_char c :: nat) < 32 then
        [CHR 0x5C, CHR ''u'', CHR ''0'', CHR ''0'',
         hex_char (of_char c div 16), hex_char (of_char c mod 16)]
      else [c])"

definition quote :: "string \<Rightarrow> string" where
  "quote s = CHR 0x22 # concat (map escape_char s) @ [CHR 0x22]"

fun join_comma :: "string list \<Rightarrow> string" where
  "join_comma [] = []"
| "join_comma [x] = x"
| "join_comma (x # y # ys) = x @ CHR '','' # join_comma (y # ys)"

text \<open>\<open>JSON.stringify\<close> on parsed JSON, where every value has a serialisation.\<close>

fun JSON_stringify :: "json \<Rightarrow> string" where
  "JSON_stringify JNull = ''null''"
| "JSON_stringify (JBool b) = (if b then ''true'' else ''false'')"
| "JSON_stringify (JNum n) = Number_toString n"
| "JSON_stringify (JStr s) = quote s"
| "JSON_stringify (JArr xs) = CHR ''['' # join_comma (map JSON_stringify xs) @ '']''"
| "JSON_stringify (JObj kvs) =
     CHR ''{'' # join_comma (map (\<lambda>(k, v). quote k @ CHR '':'' # JSON_stringify v) kvs) @ ''}''"

subsection \<open>Values of the host\<close>

text \<open>
  What \<open>editor.save()\<close> may hand over as blocks (the data of a block is of type \<open>any\<close>):
  the values that \<open>JSON.stringify\<close> serialises by its own rules. \<open>Undefined\<close> also stands
  for functions and symbols, which \<open>JSON.stringify\<close> treats as it treats \<open>undefined\<close>. An
  object lists its enumerable own properties in enumeration order. Values that make
  \<open>JSON.stringify\<close> throw (a BigInt, a cyclic object) or that bring their own \<open>toJSON\<close>
  are not modelled.
\<close>

datatype js_number = Finite finite_number | NegativeZero | NaN | PosInfinity | NegInfinity

datatype js_value =
    Undefined
  | Null
  | Boolean bool
  | Number js_number
  | String string
  | Array "js_value list"
  | Object "(string \<times> js_value) list"

text \<open>
  \<open>SerializeJSONProperty\<close>: \<open>None\<close> is the result \<open>undefined\<close>. A number that is not finite
  is written \<open>null\<close>, and minus zero is written \<open>0\<close>; an element of an array without a
  serialisation is written \<open>null\<close>; a property without one is left out.
\<close>

fun SerializeJSONProperty :: "js_value \<Rightarrow> string option" where
  "SerializeJSONProperty Undefined = None"
| "SerializeJSONProperty Null = Some ''null''"
| "SerializeJSONProperty (Boolean b) = Some (if b then ''true'' else ''false'')"
| "SerializeJSONProperty (Number x) =
     Some (case x of Finite f \<Rightarrow> Number_toString f | NegativeZero \<Rightarrow> ''0'' | _ \<Rightarrow> ''null'')"
| "SerializeJSONProperty (String s) = Some (quote s)"
| "SerializeJSONProperty (Array xs) =
     Some (CHR ''['' #
       join_comma (map (\<lambda>x. case SerializeJSONProperty x of None \<Rightarrow> ''null'' | Some t \<Rightarrow> t) xs) @
       '']'')"
| "SerializeJSONProperty (Object kvs) =
     Some (CHR ''{'' #
       join_comma (concat (map (\<lambda>(k, v). case SerializeJSONProperty v of
                                            None \<Rightarrow> [] | Some t \<Rightarrow> [quote k @ CHR '':'' # t]) kvs)) @
       ''}'')"

text \<open>Parsed JSON is a value of the host again.\<close>

fun raw :: "json \<Rightarrow> js_value" where
  "raw JNull = Null"
| "raw (JBool b) = Boolean b"
| "raw (JNum n) = Number (Finite n)"
| "raw (JStr s) = String s"
| "raw (JArr xs) = Array (map raw xs)"
| "raw (JObj kvs) = Object (map (\<lambda>(k, v). (k, raw v)) kvs)"

text \<open>
  \<open>JSON.parse(JSON.stringify(v))\<close>: the parsed JSON with the serialisation of \<open>v\<close>, which
  there is exactly one of (\<open>round_trip_serialisation\<close> and \<open>JSON_stringify_inj\<close> below).
  \<open>None\<close> where \<open>v\<close> has no serialisation.
\<close>

fun JSON_round_trip :: "js_value \<Rightarrow> json option" where
  "JSON_round_trip Undefined = None"
| "JSON_round_trip Null = Some JNull"
| "JSON_round_trip (Boolean b) = Some (JBool b)"
| "JSON_round_trip (Number x) =
     Some (case x of Finite f \<Rightarrow> JNum f | NegativeZero \<Rightarrow> JNum Zero | _ \<Rightarrow> JNull)"
| "JSON_round_trip (String s) = Some (JStr s)"
| "JSON_round_trip (Array xs) =
     Some (JArr (map (\<lambda>x. case JSON_round_trip x of None \<Rightarrow> JNull | Some j \<Rightarrow> j) xs))"
| "JSON_round_trip (Object kvs) =
     Some (JObj (concat (map (\<lambda>(k, v). case JSON_round_trip v of
                                         None \<Rightarrow> [] | Some j \<Rightarrow> [(k, j)]) kvs)))"

section \<open>The undo manager\<close>

record HistoryItem =
  blocks :: "json list"
  caretBlockIndex :: "int option"
  caretOffset :: "int option"

record UndoState =
  state_position :: int
  state_count :: int
  state_canUndo :: bool
  state_canRedo :: bool

record Caret =
  blockIndex :: "int option"
  offset :: "int option"

datatype ShortcutDefinition = Combo string | Tokens "string list"

text \<open>
  The options of \<open>UndoConfig\<close> may be absent. \<open>debounceMs\<close> and \<open>maxHistory\<close> are
  JavaScript numbers that the constructor takes as they come: a rational, an infinity or
  NaN. They are only compared and subtracted, and that arithmetic is exact here. The
  observer \<open>onUpdate\<close> is modelled by the log of its calls in the manager.
\<close>

datatype amount = Amount rat | PlusInfinity | MinusInfinity | NotANumber

record UndoConfig =
  cfg_debounceMs :: "amount option"
  cfg_maxHistory :: "amount option"
  cfg_undo :: "ShortcutDefinition list option"
  cfg_redo :: "ShortcutDefinition list option"

record ResolvedUndoConfig =
  debounceMs :: amount
  maxHistory :: amount
  shortcuts_undo :: "ShortcutDefinition list"
  shortcuts_redo :: "ShortcutDefinition list"

text \<open>
  The fields of \<open>EditorUndoManager\<close>. The observer \<open>config.onUpdate\<close> and the host's
  \<open>editor.render\<close> are effects: each call is appended to a log, \<open>notified\<close> with the
  state passed to the observer and \<open>rendered\<close> with the blocks handed to the host.
\<close>

record manager =
  config :: ResolvedUndoConfig
  history :: "HistoryItem list"
  position :: int
  isSaving :: bool
  pendingSave :: bool
  notified :: "UndoState list"
  rendered :: "json list list"

definition DEFAULT_SHORTCUTS_undo :: "ShortcutDefinition list" where
  "DEFAULT_SHORTCUTS_undo = [Combo ''CMD+Z'', Combo ''CTRL+Z'']"

definition DEFAULT_SHORTCUTS_redo :: "ShortcutDefinition list" where
  "DEFAULT_SHORTCUTS_redo = [Combo ''CMD+SHIFT+Z'', Combo ''CTRL+SHIFT+Z'', Combo ''CTRL+Y'']"

definition resolveShortcuts ::
  "ShortcutDefinition list option \<Rightarrow> ShortcutDefinition list \<Rightarrow> ShortcutDefinition list" where
  "resolveShortcuts input fallback =
     (case input of None \<Rightarrow> fallback
      | Some ds \<Rightarrow> if length ds = 0 then fallback else map (\<lambda>definition. definition) ds)"

definition constructor :: "UndoConfig \<Rightarrow> manager" where
  "constructor c =
     \<lparr> config = \<lparr> debounceMs = (case cfg_debounceMs c of None \<Rightarrow> Amount 250 | Some d \<Rightarrow> d),
                  maxHistory = (case cfg_maxHistory c of None \<Rightarrow> Amount 100 | Some n \<Rightarrow> n),
                  shortcuts_undo = resolveShortcuts (cfg_undo c) DEFAULT_SHORTCUTS_undo,
                  shortcuts_redo = resolveShortcuts (cfg_redo c) DEFAULT_SHORTCUTS_redo \<rparr>,
       history = [],
       position = - 1,
       isSaving = False,
       pendingSave = False,
       notified = [],
       rendered = [] \<rparr>"

text \<open>\<open>xs[i]\<close> of JavaScript: \<open>undefined\<close> (here \<open>None\<close>) outside the array.\<close>

definition at_index :: "'a list \<Rightarrow> int \<Rightarrow> 'a option" where
  "at_index xs i = (if 0 \<le> i \<and> i < int (length xs) then Some (xs ! nat i) else None)"

text \<open>
  \<open>to_integer\<close> drops the fraction of a rational. \<open>clamp_count dc n\<close> is
  \<open>min(max(ToIntegerOrInfinity(dc), 0), n)\<close> for \<open>n \<ge> 0\<close>: NaN counts as 0.
\<close>

definition to_integer :: "rat \<Rightarrow> int" where
  "to_integer r = (if r < 0 then \<lceil>r\<rceil> else \<lfloor>r\<rfloor>)"

definition clamp_count :: "amount \<Rightarrow> int \<Rightarrow> int" where
  "clamp_count dc n =
     (case dc of
        Amount r \<Rightarrow> min (max (to_integer r) 0) n
      | PlusInfinity \<Rightarrow> n
      | MinusInfinity \<Rightarrow> min 0 n
      | NotANumber \<Rightarrow> min 0 n)"

text \<open>
  \<open>Array.prototype.splice(start, deleteCount)\<close> without inserted items; the result is the
  array as the call leaves it. \<open>start\<close> is a whole number in every call of the manager; a
  negative \<open>start\<close> counts from the end, and both arguments are clamped to the array.
  \<open>None\<close> is the call with \<open>start\<close> alone.
\<close>

definition splice :: "'a list \<Rightarrow> int \<Rightarrow> amount option \<Rightarrow> 'a list" where
  "splice xs start deleteCount =
     (let len = int (length xs);
          actualStart = (if start < 0 then max (len + start) 0 else min start len);
          actualDeleteCount =
            (case deleteCount of None \<Rightarrow> len - actualStart
             | Some dc \<Rightarrow> clamp_count dc (len - actualStart))
      in take (nat actualStart) xs @ drop (nat (actualStart + actualDeleteCount)) xs)"

text \<open>
  The comparison \<open>length >= maxHistory\<close> and the difference \<open>length - maxHistory + 1\<close> of
  \<open>trimHistory\<close>, for a length \<open>l\<close>: a comparison with NaN is false.
\<close>

definition length_ge :: "int \<Rightarrow> amount \<Rightarrow> bool" where
  "length_ge l x =
     (case x of
        Amount r \<Rightarrow> of_int l \<ge> r
      | PlusInfinity \<Rightarrow> False
      | MinusInfinity \<Rightarrow> True
      | NotANumber \<Rightarrow> False)"

definition length_minus_plus_one :: "int \<Rightarrow> amount \<Rightarrow> amount" where
  "length_minus_plus_one l x =
     (case x of
        Amount r \<Rightarrow> Amount (of_int l - r + 1)
      | PlusInfinity \<Rightarrow> MinusInfinity
      | MinusInfinity \<Rightarrow> PlusInfinity
      | NotANumber \<Rightarrow> NotANumber)"

definition canUndo :: "manager \<Rightarrow> bool" where
  "canUndo m = (position m > 0)"

definition canRedo :: "manager \<Rightarrow> bool" where
  "canRedo m = (position m \<ge> 0 \<and> position m < int (length (history m)) - 1)"

definition getState :: "manager \<Rightarrow> UndoState" where
  "getState m =
     \<lparr> state_position = position m,
       state_count = int (length (history m)),
       state_canUndo = canUndo m,
       state_canRedo = canRedo m \<rparr>"

definition notify :: "manager \<Rightarrow> manager" where
  "notify m = m\<lparr>notified := notified m @ [getState m]\<rparr>"

text \<open>
  \<open>JSON.parse(JSON.stringify(blocks))\<close>: the round trip of the array of blocks, whose
  elements without a serialisation come back as null.
\<close>

definition cloneBlocks :: "js_value list \<Rightarrow> json list" where
  "cloneBlocks bs = map (\<lambda>b. case JSON_round_trip b of None \<Rightarrow> JNull | Some j \<Rightarrow> j) bs"

datatype initial_data = BlockArray "js_value list" | Wrapper "js_value list option"

fun extractBlocks :: "initial_data \<Rightarrow> js_value list" where
  "extractBlocks (BlockArray bs) = bs"
| "extractBlocks (Wrapper (Some bs)) = bs"
| "extractBlocks (Wrapper None) = []"

definition initialize :: "initial_data \<Rightarrow> manager \<Rightarrow> manager" where
  "initialize initialData m =
     (let bs = extractBlocks initialData;
          m1 = m\<lparr>history := []\<rparr>;
          m2 = m1\<lparr>history := history m1 @
                 [\<lparr>blocks = cloneBlocks bs, caretBlockIndex = None, caretOffset = None\<rparr>]\<rparr>;
          m3 = m2\<lparr>position := 0\<rparr>
      in notify m3)"

text \<open>
  The blocks of the current snapshot are parsed JSON; the candidate is what the host handed
  over. Both go through the same \<open>JSON.stringify\<close>.
\<close>

definition hasChanged :: "manager \<Rightarrow> js_value list \<Rightarrow> bool" where
  "hasChanged m bs =
     (let current = (case at_index (history m) (position m) of
                       None \<Rightarrow> [] | Some item \<Rightarrow> map raw (blocks item))
      in SerializeJSONProperty (Array current) \<noteq> SerializeJSONProperty (Array bs))"

definition trimHistory :: "manager \<Rightarrow> manager" where
  "trimHistory m =
     (let m1 = (if position m < int (length (history m)) - 1
                then m\<lparr>history := splice (history m) (position m + 1) None\<rparr> else m)
      in if length_ge (int (length (history m1))) (maxHistory (config m1))
         then (let h = splice (history m1) 0
                         (Some (length_minus_plus_one (int (length (history m1)))
                            (maxHistory (config m1))))
               in m1\<lparr>history := h, position := int (length h) - 1\<rparr>)
         else m1)"

text \<open>
  \<open>captureSnapshot\<close> suspends once, at \<open>await this.editor.save()\<close>. \<open>captureSnapshot_begin\<close>
  is the part before the suspension; \<open>captureSnapshot_resume\<close> is the part that runs when
  the host's save has resolved with \<open>output\<close>, \<open>caret\<close> being what \<open>getCaretPosition\<close>
  reads at that moment; \<open>captureSnapshot_reject\<close> is the \<open>finally\<close> block alone, run when
  the save has failed.
\<close>

definition captureSnapshot_begin :: "manager \<Rightarrow> manager" where
  "captureSnapshot_begin m = m\<lparr>isSaving := True\<rparr>"

text \<open>
  \<open>push\<close> is the body of \<open>if (this.hasChanged(output.blocks))\<close> in \<open>captureSnapshot\<close>:
  trim, append the snapshot, point at it, notify.
\<close>

definition push :: "js_value list \<Rightarrow> Caret \<Rightarrow> manager \<Rightarrow> manager" where
  "push output caret m =
     (let m1 = trimHistory m;
          m2 = m1\<lparr>history := history m1 @
                 [\<lparr>blocks = cloneBlocks output,
                   caretBlockIndex = blockIndex caret,
                   caretOffset = offset caret\<rparr>]\<rparr>;
          m3 = m2\<lparr>position := int (length (history m2)) - 1\<rparr>
      in notify m3)"

definition captureSnapshot_resume :: "js_value list \<Rightarrow> Caret \<Rightarrow> manager \<Rightarrow> manager" where
  "captureSnapshot_resume output caret m =
     (let m1 = (if hasChanged m output then push output caret m else m)
      in m1\<lparr>isSaving := False\<rparr>)"

definition captureSnapshot_reject :: "manager \<Rightarrow> manager" where
  "captureSnapshot_reject m = m\<lparr>isSaving := False\<rparr>"

definition captureSnapshot :: "js_value list \<Rightarrow> Caret \<Rightarrow> manager \<Rightarrow> manager" where
  "captureSnapshot output caret m = captureSnapshot_resume output caret (captureSnapshot_begin m)"

subsection \<open>Navigation\<close>

datatype error = TypeError

datatype outcome = Resolved | Rejected error

text \<open>
  \<open>restore\<close> hands a copy of the snapshot's blocks to the host's \<open>render\<close>, which is taken
  to resolve. \<open>restoreCaret\<close> only writes the selection of the document, which no field
  of the manager reads back.
\<close>

definition restore :: "HistoryItem \<Rightarrow> manager \<Rightarrow> manager" where
  "restore item m = m\<lparr>rendered := rendered m @ [cloneBlocks (map raw (blocks item))]\<rparr>"

text \<open>
  \<open>undo\<close> and \<open>redo\<close> return the promise's outcome with the manager as the call leaves
  it. Where \<open>this.history[this.position]\<close> is \<open>undefined\<close>, \<open>restore\<close> reads \<open>item.blocks\<close>
  of \<open>undefined\<close>: the promise is rejected with a TypeError, after the position has moved
  and before any notification.
\<close>

definition undo :: "manager \<Rightarrow> outcome \<times> manager" where
  "undo m =
     (if \<not> canUndo m then (Resolved, m)
      else (let m1 = m\<lparr>position := position m - 1\<rparr>
            in case at_index (history m1) (position m1) of
                 None \<Rightarrow> (Rejected TypeError, m1)
               | Some item \<Rightarrow> (Resolved, notify (restore item m1))))"

definition redo :: "manager \<Rightarrow> outcome \<times> manager" where
  "redo m =
     (if \<not> canRedo m then (Resolved, m)
      else (let m1 = m\<lparr>position := position m + 1\<rparr>
            in case at_index (history m1) (position m1) of
                 None \<Rightarrow> (Rejected TypeError, m1)
               | Some item \<Rightarrow> (Resolved, notify (restore item m1))))"

subsection \<open>Shortcuts\<close>

record KeyboardEvent =
  key :: string
  ctrlKey :: bool
  metaKey :: bool
  altKey :: bool
  shiftKey :: bool

text \<open>
  A \<open>char\<close> stands for a code unit below U+0100. \<open>toLowerCase\<close> maps the capital letters
  of that range, \<open>trim\<close> strips its white space and line terminators.
\<close>

definition toLowerCase_char :: "char \<Rightarrow> char" where
  "toLowerCase_char c =
     (let n = (of_char c :: nat)
      in if (65 \<le> n \<and> n \<le> 90) \<or> (192 \<le> n \<and> n \<le> 222 \<and> n \<noteq> 215)
         then char_of (n + 32) else c)"

definition toLowerCase :: "string \<Rightarrow> string" where
  "toLowerCase s = map toLowerCase_char s"

definition is_space :: "char \<Rightarrow> bool" where
  "is_space c = ((of_char c :: nat) \<in> {9, 10, 11, 12, 13, 32, 160})"

definition trim :: "string \<Rightarrow> string" where
  "trim s = rev (dropWhile is_space (rev (dropWhile is_space s)))"

text \<open>\<open>shortcut.split('+')\<close>: always at least one part, the empty string included.\<close>

fun split_plus :: "string \<Rightarrow> string list" where
  "split_plus [] = [[]]"
| "split_plus (c # cs) =
     (if c = CHR ''+'' then [] # split_plus cs
      else (case split_plus cs of [] \<Rightarrow> [[c]] | t # ts \<Rightarrow> (c # t) # ts))"

text \<open>\<open>Array.prototype.pop\<close>: the last element (\<open>undefined\<close> on the empty array) and the rest.\<close>

definition pop :: "'a list \<Rightarrow> 'a option \<times> 'a list" where
  "pop xs = (if xs = [] then (None, []) else (Some (last xs), butlast xs))"

definition array_includes :: "string list \<Rightarrow> string \<Rightarrow> bool" where
  "array_includes xs x = (x \<in> set xs)"

definition matchesShortcut :: "KeyboardEvent \<Rightarrow> ShortcutDefinition \<Rightarrow> bool" where
  "matchesShortcut event shortcut =
     (let combination = (case shortcut of Tokens ts \<Rightarrow> ts | Combo s \<Rightarrow> split_plus s);
          normalized0 = map (\<lambda>part. toLowerCase (trim part)) combination;
          (popped, normalized) = pop normalized0
      in case popped of
           None \<Rightarrow> False
         | Some keyToken \<Rightarrow>
             if keyToken = [] then False
             else
               (let requiresCtrl = (array_includes normalized ''ctrl'' \<or> array_includes normalized ''control'');
                    requiresMeta = (array_includes normalized ''cmd'' \<or> array_includes normalized ''meta'');
                    requiresAlt = array_includes normalized ''alt'';
                    requiresShift = array_includes normalized ''shift''
                in if requiresCtrl \<and> \<not> ctrlKey event then False
                   else if requiresMeta \<and> \<not> metaKey event then False
                   else if requiresAlt \<and> \<not> altKey event then False
                   else if requiresShift \<and> \<not> shiftKey event then False
                   else if \<not> requiresCtrl \<and> ctrlKey event then False
                   else if \<not> requiresMeta \<and> metaKey event then False
                   else if \<not> requiresAlt \<and> altKey event then False
                   else if \<not> requiresShift \<and> shiftKey event then False
                   else toLowerCase (key event) = keyToken))"

definition matches :: "KeyboardEvent \<Rightarrow> ShortcutDefinition list \<Rightarrow> bool" where
  "matches event shortcuts = list_ex (\<lambda>shortcut. matchesShortcut event shortcut) shortcuts"

text \<open>
  \<open>handleKeyDown\<close> starts the navigation and drops its promise (\<open>void this.undo()\<close>).
\<close>

definition handleKeyDown :: "KeyboardEvent \<Rightarrow> manager \<Rightarrow> manager" where
  "handleKeyDown event m =
     (if matches event (shortcuts_undo (config m)) then snd (undo m)
      else if matches event (shortcuts_redo (config m)) then snd (redo m)
      else m)"

subsection \<open>The debounced saver and the event loop\<close>

text \<open>
  The manager runs on one event loop. Its state beyond the manager's fields is the closure
  of \<open>debounce\<close> and the one invocation of the saver that can be suspended:
  \<^item> \<open>timeout\<close>: the armed timer, named by the call of \<open>handleEditorChange\<close> that armed
    it (calls are numbered from 0 in the order they are made);
  \<^item> \<open>resolved\<close>: the calls whose promise has been resolved, in that order;
  \<^item> \<open>awaiting\<close>: the invocation of the saver suspended in \<open>await this.captureSnapshot()\<close>,
    with the capture it waits for (the first or the chained one) and the call whose timer
    started it.
  Time is abstract: an armed timer may fire, and a save may settle, at any later turn.
\<close>

datatype phase = First | Chained

record system =
  mgr :: manager
  timeout :: "nat option"
  calls :: nat
  resolved :: "nat list"
  awaiting :: "(phase \<times> nat) option"

definition boot :: "UndoConfig \<Rightarrow> system" where
  "boot c = \<lparr> mgr = constructor c, timeout = None, calls = 0, resolved = [], awaiting = None \<rparr>"

text \<open>
  \<open>handleEditorChange\<close> calls the debounced function: the armed timer is cleared, so its
  callback never runs and nothing is left that could resolve its promise, and a new timer
  is armed for this call.
\<close>

definition handleEditorChange :: "system \<Rightarrow> system" where
  "handleEditorChange s = s\<lparr>timeout := Some (calls s), calls := calls s + 1\<rparr>"

text \<open>
  The timer's callback for call \<open>i\<close>: \<open>timeout = null; await fn(); resolve()\<close>, where \<open>fn\<close>
  is the saver. With a capture in flight the saver sets \<open>pendingSave\<close> and returns, and the
  promise of \<open>i\<close> is resolved; otherwise it starts a capture and is suspended.
\<close>

definition timer_fires :: "system \<Rightarrow> system" where
  "timer_fires s =
     (case timeout s of
        None \<Rightarrow> s
      | Some i \<Rightarrow>
          (let s1 = s\<lparr>timeout := None\<rparr>
           in if isSaving (mgr s1)
              then s1\<lparr>mgr := (mgr s1)\<lparr>pendingSave := True\<rparr>, resolved := resolved s1 @ [i]\<rparr>
              else s1\<lparr>mgr := captureSnapshot_begin (mgr s1), awaiting := Some (First, i)\<rparr>))"

text \<open>
  The host's save resolves: the capture in flight runs to its end, and the saver goes on.
  After its first capture it tests \<open>pendingSave\<close> and may start the chained capture; after
  the chained capture it returns without a further test, and the promise is resolved.
\<close>

definition save_resolves :: "js_value list \<Rightarrow> Caret \<Rightarrow> system \<Rightarrow> system" where
  "save_resolves output caret s =
     (case awaiting s of
        None \<Rightarrow> s
      | Some (ph, i) \<Rightarrow>
          (let m1 = captureSnapshot_resume output caret (mgr s)
           in if ph = First \<and> pendingSave m1
              then s\<lparr>mgr := captureSnapshot_begin (m1\<lparr>pendingSave := False\<rparr>),
                     awaiting := Some (Chained, i)\<rparr>
              else s\<lparr>mgr := m1, awaiting := None, resolved := resolved s @ [i]\<rparr>))"

text \<open>
  The host's save fails: \<open>finally\<close> clears the flag, the error leaves the saver and the
  timer's callback, and \<open>resolve\<close> is never reached.
\<close>

definition save_rejects :: "system \<Rightarrow> system" where
  "save_rejects s =
     (case awaiting s of
        None \<Rightarrow> s
      | Some (ph, i) \<Rightarrow> s\<lparr>mgr := captureSnapshot_reject (mgr s), awaiting := None\<rparr>)"

datatype event =
    Initialize initial_data
  | HandleEditorChange
  | TimerFires
  | SaveResolves "js_value list" Caret
  | SaveRejects
  | Undo
  | Redo
  | KeyDown KeyboardEvent

fun exec :: "event \<Rightarrow> system \<Rightarrow> system" where
  "exec (Initialize d) s = s\<lparr>mgr := initialize d (mgr s)\<rparr>"
| "exec HandleEditorChange s = handleEditorChange s"
| "exec TimerFires s = timer_fires s"
| "exec (SaveResolves output caret) s = save_resolves output caret s"
| "exec SaveRejects s = save_rejects s"
| "exec Undo s = s\<lparr>mgr := snd (undo (mgr s))\<rparr>"
| "exec Redo s = s\<lparr>mgr := snd (redo (mgr s))\<rparr>"
| "exec (KeyDown e) s = s\<lparr>mgr := handleKeyDown e (mgr s)\<rparr>"

definition run :: "event list \<Rightarrow> system \<Rightarrow> system" where
  "run evs s = fold exec evs s"

section \<open>The specification's wording\<close>

text \<open>
  Equality of content as the specification words it: deep, arrays in order, and an object
  equal to another with the same members in any order.
\<close>

fun struct_eq :: "js_value \<Rightarrow> js_value \<Rightarrow> bool" where
  "struct_eq (Array xs) (Array ys) = list_all2 struct_eq xs ys"
| "struct_eq (Object kvs) (Object kvs') =
     (length kvs = length kvs' \<and>
      list_all (\<lambda>(k, v). list_ex (\<lambda>(k', v'). k = k' \<and> struct_eq v v') kvs') kvs)"
| "struct_eq a b = (a = b)"

text \<open>
  The matcher as the specification words it: the tokens are lowercased, the last one is
  the key and those before it are the required modifiers; a shortcut matches when the
  pressed modifiers are exactly the required ones and the event's key equals the key token
  without regard to case. A definition without tokens has no key token to equal.
\<close>

definition spec_matchesShortcut :: "KeyboardEvent \<Rightarrow> ShortcutDefinition \<Rightarrow> bool" where
  "spec_matchesShortcut event shortcut =
     (let tokens = map toLowerCase (case shortcut of Tokens ts \<Rightarrow> ts | Combo s \<Rightarrow> split_plus s);
          required = butlast tokens
      in tokens \<noteq> []
         \<and> (ctrlKey event = (''ctrl'' \<in> set required \<or> ''control'' \<in> set required))
         \<and> (metaKey event = (''cmd'' \<in> set required \<or> ''meta'' \<in> set required))
         \<and> (altKey event = (''alt'' \<in> set required))
         \<and> (shiftKey event = (''shift'' \<in> set required))
         \<and> toLowerCase (key event) = toLowerCase (last tokens))"

section \<open>Example data\<close>

text \<open>The blocks and the configuration of the repository's tests.\<close>

definition default_config :: UndoConfig where
  "default_config =
     \<lparr>cfg_debounceMs = None, cfg_maxHistory = None, cfg_undo = None, cfg_redo = None\<rparr>"

definition small_config :: UndoConfig where
  "small_config =
     \<lparr>cfg_debounceMs = Some (Amount 0), cfg_maxHistory = Some (Amount 2),
      cfg_undo = None, cfg_redo = None\<rparr>"

text \<open>A bound that is not a whole number.\<close>

definition fractional_config :: UndoConfig where
  "fractional_config =
     \<lparr>cfg_debounceMs = Some (Amount 0), cfg_maxHistory = Some (Amount (5 / 2)),
      cfg_undo = None, cfg_redo = None\<rparr>"

definition paragraph_block :: "string \<Rightarrow> string \<Rightarrow> js_value" where
  "paragraph_block i t =
     Object [(''id'', String i), (''type'', String ''paragraph''),
             (''data'', Object [(''text'', String t)])]"

definition no_caret :: Caret where
  "no_caret = \<lparr>blockIndex = None, offset = None\<rparr>"

definition first_doc :: "js_value list" where
  "first_doc = [paragraph_block ''1'' ''First'']"

definition second_doc :: "js_value list" where
  "second_doc = [paragraph_block ''1'' ''First'', paragraph_block ''2'' ''Second'']"

definition third_doc :: "js_value list" where
  "third_doc = [paragraph_block ''1'' ''First'', paragraph_block ''2'' ''Second'',
                paragraph_block ''3'' ''Third'']"

text \<open>The first block of the tests with its keys in another order.\<close>

definition reordered_doc :: "js_value list" where
  "reordered_doc =
     [Object [(''type'', String ''paragraph''), (''id'', String ''1''),
              (''data'', Object [(''text'', String ''First'')])]]"

text \<open>A block whose data holds NaN, and the same block with null in its place.\<close>

definition nan_doc :: "js_value list" where
  "nan_doc = [Object [(''id'', String ''1''), (''data'', Object [(''n'', Number NaN)])]]"

definition null_doc :: "js_value list" where
  "null_doc = [Object [(''id'', String ''1''), (''data'', Object [(''n'', Null)])]]"

text \<open>
  A block whose data holds NaN, an undefined property and the number 1e21, and what the
  round trip makes of it.
\<close>

definition odd_doc :: "js_value list" where
  "odd_doc =
     [Object [(''id'', String ''1''),
              (''data'', Object [(''n'', Number NaN), (''u'', Undefined),
                                 (''big'', Number (Finite (Decimal False 0 D1 22)))])]]"

definition odd_doc_parsed :: "js_value list" where
  "odd_doc_parsed =
     [Object [(''id'', String ''1''),
              (''data'', Object [(''n'', Null),
                                 (''big'', Number (Finite (Decimal False 0 D1 22)))])]]"

text \<open>
  \<open>two_snapshots\<close> is the run of the test "captures snapshots on change": the manager is
  initialised, the editor changes, the timer fires and the save resolves.
\<close>

definition two_snapshots :: "event list" where
  "two_snapshots =
     [Initialize (Wrapper (Some first_doc)), HandleEditorChange, TimerFires,
      SaveResolves second_doc no_caret]"

definition three_snapshots :: "event list" where
  "three_snapshots =
     two_snapshots @ [HandleEditorChange, TimerFires, SaveResolves third_doc no_caret]"

text \<open>
  Three requests: the timer of the second fires during the first capture, the timer of the
  third during the chained capture.
\<close>

definition dropped_request :: "event list" where
  "dropped_request =
     [Initialize (Wrapper (Some first_doc)),
      HandleEditorChange, TimerFires,
      HandleEditorChange, TimerFires,
      SaveResolves second_doc no_caret,
      HandleEditorChange, TimerFires,
      SaveResolves third_doc no_caret]"

definition key_event :: "string \<Rightarrow> bool \<Rightarrow> bool \<Rightarrow> bool \<Rightarrow> bool \<Rightarrow> KeyboardEvent" where
  "key_event k c m a sh = \<lparr>key = k, ctrlKey = c, metaKey = m, altKey = a, shiftKey = sh\<rparr>"

section \<open>Invariants and auxiliary notions\<close>

subsection \<open>Invariants of the history\<close>

text \<open>The position is \<open>-1\<close> or an index of the history.\<close>

definition hist_inv :: "manager \<Rightarrow> bool" where
  "hist_inv m = (- 1 \<le> position m \<and> position m < int (length (history m)))"

text \<open>
  The number of snapshots that \<open>trimHistory\<close> takes from the front of a history of length
  \<open>l\<close>, and the bounds the claims are about: those that are at least one.
\<close>

definition removed :: "int \<Rightarrow> amount \<Rightarrow> nat" where
  "removed l x =
     (if length_ge l x then nat (clamp_count (length_minus_plus_one l x) l) else 0)"

definition at_least_one :: "amount \<Rightarrow> bool" where
  "at_least_one x = (case x of Amount r \<Rightarrow> 1 \<le> r | PlusInfinity \<Rightarrow> True | _ \<Rightarrow> False)"

text \<open>The history holds at most \<open>maxHistory\<close> snapshots, rounded up to a whole number.\<close>

definition bounded :: "manager \<Rightarrow> bool" where
  "bounded m =
     (case maxHistory (config m) of
        Amount r \<Rightarrow> int (length (history m)) \<le> \<lceil>r\<rceil>
      | _ \<Rightarrow> True)"

subsection \<open>Invariants of the event loop\<close>

text \<open>
  Resolved calls have been made; the armed timer belongs to a call that is not resolved;
  \<open>isSaving\<close> is set exactly while an invocation of the saver is suspended, and the call
  that invocation belongs to is not resolved and no longer owns the timer.
\<close>

definition sched_inv :: "system \<Rightarrow> bool" where
  "sched_inv s =
     ((\<forall>i \<in> set (resolved s). i < calls s)
      \<and> (case timeout s of None \<Rightarrow> True | Some i \<Rightarrow> i < calls s \<and> i \<notin> set (resolved s))
      \<and> (case awaiting s of
            None \<Rightarrow> \<not> isSaving (mgr s)
          | Some (ph, i) \<Rightarrow>
              isSaving (mgr s) \<and> i < calls s \<and> i \<notin> set (resolved s) \<and> timeout s \<noteq> Some i))"

text \<open>
  A call that owns neither the timer nor the suspended invocation, and is not resolved.
\<close>

definition orphan :: "nat \<Rightarrow> system \<Rightarrow> bool" where
  "orphan i s = (i \<notin> set (resolved s) \<and> timeout s \<noteq> Some i
     \<and> (case awaiting s of None \<Rightarrow> True | Some (ph, j) \<Rightarrow> j \<noteq> i) \<and> i < calls s)"

subsection \<open>Reading a serialisation back\<close>

text \<open>The characters of a decimal numeral.\<close>

definition is_digit :: "char \<Rightarrow> bool" where
  "is_digit c = (48 \<le> (of_char c :: nat) \<and> (of_char c :: nat) \<le> 57)"

text \<open>The characters of a number's text.\<close>

definition is_numeric :: "char \<Rightarrow> bool" where
  "is_numeric c = (is_digit c \<or> c = CHR ''-'' \<or> c = CHR ''+'' \<or> c = CHR ''.'' \<or> c = CHR ''e'')"

text \<open>
  What may follow a value inside a serialisation: nothing, a comma or a closing bracket.
\<close>

definition delimited :: "string \<Rightarrow> bool" where
  "delimited r = (r = [] \<or> hd r \<in> {CHR '','', CHR '']'', CHR ''}''})"

text \<open>
  The kind of a value, and the kind that the first character of a serialisation announces.
\<close>

definition tag :: "json \<Rightarrow> nat" where
  "tag v = (case v of JNull \<Rightarrow> 0 | JBool _ \<Rightarrow> 1 | JNum _ \<Rightarrow> 2 | JStr _ \<Rightarrow> 3 | JArr _ \<Rightarrow> 4 | JObj _ \<Rightarrow> 5)"

definition char_tag :: "char \<Rightarrow> nat" where
  "char_tag c =
     (if c = CHR ''n'' then 0
      else if c = CHR ''t'' \<or> c = CHR ''f'' then 1
      else if c = CHR ''-'' \<or> is_digit c then 2
      else if c = CHR 0x22 then 3
      else if c = CHR ''['' then 4
      else if c = CHR ''{'' then 5
      else 6)"

section \<open>Properties\<close>

subsection \<open>The text of a number\<close>

lemma digit_char_inj: "a < 10 \<Longrightarrow> b < 10 \<Longrightarrow> digit_char a = digit_char b \<Longrightarrow> a = b"
proof -
  assume a: "a < 10" and b: "b < 10" and e: "digit_char a = digit_char b"
  from e have "(of_char (char_of (48 + a)) :: nat) = of_char (char_of (48 + b))"
    by (simp add: digit_char_def)
  with a b show ?thesis by simp
qed

lemma hex_char_inj: "a < 16 \<Longrightarrow> b < 16 \<Longrightarrow> hex_char a = hex_char b \<Longrightarrow> a = b"
proof -
  assume a: "a < 16" and b: "b < 16" and e: "hex_char a = hex_char b"
  from e have "(of_char (hex_char a) :: nat) = of_char (hex_char b)" by simp
  with a b show ?thesis by (simp add: hex_char_def split: if_splits)
qed

lemma is_digit_digit_char: "d < 10 \<Longrightarrow> is_digit (digit_char d)"
  by (simp add: is_digit_def digit_char_def)

lemma digits_all_digit: "\<forall>c \<in> set (digits n). is_digit c"
proof (induction n rule: digits.induct)
  case (1 n)
  show ?case
  proof (cases "n < 10")
    case True
    then show ?thesis by (subst digits.simps) (simp add: is_digit_digit_char)
  next
    case False
    with 1 show ?thesis by (subst digits.simps) (simp add: is_digit_digit_char)
  qed
qed

lemma digits_nonempty: "digits n \<noteq> []"
  by (subst digits.simps) simp

lemma digits_length_ge2: "\<not> n < 10 \<Longrightarrow> 2 \<le> length (digits n)"
  using digits_nonempty[of "n div 10"]
  by (subst digits.simps) (cases "digits (n div 10)"; simp)

lemma digits_inj: "digits n = digits m \<Longrightarrow> n = m"
proof (induction n arbitrary: m rule: digits.induct)
  case (1 n)
  show ?case
  proof (cases "n < 10")
    case n: True
    show ?thesis
    proof (cases "m < 10")
      case True
      with n "1.prems" show ?thesis
        by (simp add: digits.simps[of n] digits.simps[of m] digit_char_inj)
    next
      case False
      have "length (digits n) = 1" using n by (simp add: digits.simps[of n])
      with digits_length_ge2[OF False] "1.prems" show ?thesis by simp
    qed
  next
    case n: False
    show ?thesis
    proof (cases "m < 10")
      case True
      have "length (digits m) = 1" using True by (simp add: digits.simps[of m])
      with digits_length_ge2[OF n] "1.prems" show ?thesis by simp
    next
      case False
      from "1.prems" n False
      have e: "digits (n div 10) @ [digit_char (n mod 10)] = digits (m div 10) @ [digit_char (m mod 10)]"
        by (simp add: digits.simps[of n] digits.simps[of m])
      then have "digits (n div 10) = digits (m div 10)" and d: "digit_char (n mod 10) = digit_char (m mod 10)"
        by simp_all
      with "1.IH"[OF n] have "n div 10 = m div 10" by simp
      moreover from d have "n mod 10 = m mod 10" by (intro digit_char_inj) simp_all
      ultimately show ?thesis by (metis div_mult_mod_eq)
    qed
  qed
qed

lemma span_unique:
  assumes "\<forall>c \<in> set xs. P c" and "\<forall>c \<in> set ys. P c"
    and "r = [] \<or> \<not> P (hd r)" and "r' = [] \<or> \<not> P (hd r')"
    and "xs @ r = ys @ r'"
  shows "xs = ys \<and> r = r'"
proof -
  have t: "takeWhile P (zs @ q) = zs" if "\<forall>c \<in> set zs. P c" and "q = [] \<or> \<not> P (hd q)" for zs q
    using that by (cases q) (simp_all add: takeWhile_append2)
  from t[OF assms(1,3)] t[OF assms(2,4)] assms(5) have "xs = ys" by simp
  with assms(5) show ?thesis by simp
qed

lemma hd_digits: "is_digit (hd (digits n))"
  using digits_all_digit[of n] digits_nonempty[of n] by (cases "digits n") simp_all

lemma digit_char_0: "digit_char 0 = CHR ''0''"
proof -
  have "(of_char (digit_char 0) :: nat) = of_char (CHR ''0'')" by (simp add: digit_char_def)
  then show ?thesis by (simp only: of_char_eq_iff)
qed

lemma digit_char_zero: "d < 10 \<Longrightarrow> digit_char d = CHR ''0'' \<longleftrightarrow> d = 0"
  using digit_char_inj[of d 0] digit_char_0 by auto

lemma hd_digits_nonzero: "0 < s \<Longrightarrow> hd (digits s) \<noteq> CHR ''0''"
proof (induction s rule: digits.induct)
  case (1 n)
  show ?case
  proof (cases "n < 10")
    case True
    with "1.prems" show ?thesis by (simp add: digits.simps[of n] digit_char_zero)
  next
    case False
    then have "0 < n div 10" by simp
    with "1.IH"[OF False] False digits_nonempty[of "n div 10"] show ?thesis
      by (simp add: digits.simps[of n])
  qed
qed

lemma last_digits: "last (digits s) = digit_char (s mod 10)"
  by (subst digits.simps) simp

lemma last_digits_nonzero: "s mod 10 \<noteq> 0 \<Longrightarrow> last (digits s) \<noteq> CHR ''0''"
  by (simp add: last_digits digit_char_zero)

lemma is_digit_chars:
  "\<not> is_digit (CHR ''.'')" "\<not> is_digit (CHR ''e'')" "\<not> is_digit (CHR ''+'')"
  "\<not> is_digit (CHR ''-'')" "is_digit (CHR ''0'')"
  by (simp_all add: is_digit_def)

lemma digits_no_point: "CHR ''.'' \<notin> set (digits s)" "CHR ''e'' \<notin> set (digits s)"
  using digits_all_digit[of s] is_digit_chars by blast+

lemma split_unique:
  assumes "c \<notin> set xs" and "c \<notin> set xs'" and "xs @ c # ys = xs' @ c # ys'"
  shows "xs = xs' \<and> ys = ys'"
proof -
  have t: "takeWhile (\<lambda>x. x \<noteq> c) (zs @ c # q) = zs" if "c \<notin> set zs" for zs q
    using that by (induction zs) auto
  from t[OF assms(1), of ys] t[OF assms(2), of ys'] assms(3) have "xs = xs'" by simp
  with assms(3) show ?thesis by simp
qed

lemma leading_unique:
  assumes "xs \<noteq> []" and "hd xs \<noteq> z" and "xs' \<noteq> []" and "hd xs' \<noteq> z"
    and "replicate a z @ xs = replicate a' z @ xs'"
  shows "a = a' \<and> xs = xs'"
proof -
  have d: "dropWhile (\<lambda>x. x = z) (replicate b z @ zs) = zs" if "zs \<noteq> []" "hd zs \<noteq> z" for b zs
    using that by (induction b) (cases zs; simp)+
  from d[OF assms(1,2), of a] d[OF assms(3,4), of a'] assms(5) have "xs = xs'" by simp
  with assms(5) show ?thesis by (auto dest: arg_cong[where f = length])
qed

lemma trailing_unique:
  assumes "xs \<noteq> []" and "last xs \<noteq> z" and "xs' \<noteq> []" and "last xs' \<noteq> z"
    and "xs @ replicate a z = xs' @ replicate a' z"
  shows "a = a' \<and> xs = xs'"
proof -
  from assms(5) have "rev (xs @ replicate a z) = rev (xs' @ replicate a' z)" by simp
  then have "replicate a z @ rev xs = replicate a' z @ rev xs'" by simp
  from leading_unique[OF _ _ _ _ this] assms(1-4) show ?thesis
    by (simp add: hd_rev)
qed

lemma mantissa_filter:
  assumes "CHR ''.'' \<notin> set ds"
  shows "filter (\<lambda>c. c \<noteq> CHR ''.'') (mantissa ds) = ds"
proof (cases ds)
  case Nil
  then show ?thesis by (simp add: mantissa_def)
next
  case (Cons c cs)
  with assms have "c \<noteq> CHR ''.''" and "filter (\<lambda>c. c \<noteq> CHR ''.'') cs = cs"
    by (auto simp: filter_id_conv)
  with Cons show ?thesis by (simp add: mantissa_def)
qed

lemma mantissa_no_e:
  assumes "CHR ''e'' \<notin> set ds"
  shows "CHR ''e'' \<notin> set (mantissa ds)"
proof (cases ds)
  case Nil
  then show ?thesis by (simp add: mantissa_def)
next
  case (Cons c cs)
  with assms have "c \<noteq> CHR ''e''" and "CHR ''e'' \<notin> set cs" by auto
  with Cons show ?thesis by (simp add: mantissa_def)
qed

lemma mantissa_inj:
  "CHR ''.'' \<notin> set ds \<Longrightarrow> CHR ''.'' \<notin> set ds' \<Longrightarrow> mantissa ds = mantissa ds' \<Longrightarrow> ds = ds'"
  by (metis mantissa_filter)

lemma positive_toString_exponent:
  "\<not> (- 5 \<le> n \<and> n \<le> 21) \<Longrightarrow>
   positive_toString s n =
     mantissa (digits s) @ CHR ''e'' # (if n < 0 then CHR ''-'' else CHR ''+'') # digits (nat \<bar>n - 1\<bar>)"
  unfolding positive_toString_def Let_def by (simp only: if_False)

lemma positive_toString_whole:
  "- 5 \<le> n \<Longrightarrow> n \<le> 21 \<Longrightarrow> int (length (digits s)) \<le> n \<Longrightarrow>
   positive_toString s n = digits s @ replicate (nat (n - int (length (digits s)))) CHR ''0''"
  by (simp add: positive_toString_def Let_def)

lemma positive_toString_point:
  "- 5 \<le> n \<Longrightarrow> n \<le> 21 \<Longrightarrow> n < int (length (digits s)) \<Longrightarrow> 0 < n \<Longrightarrow>
   positive_toString s n = take (nat n) (digits s) @ CHR ''.'' # drop (nat n) (digits s)"
  by (simp add: positive_toString_def Let_def)

lemma positive_toString_fraction:
  "- 5 \<le> n \<Longrightarrow> n \<le> 21 \<Longrightarrow> n < int (length (digits s)) \<Longrightarrow> n \<le> 0 \<Longrightarrow>
   positive_toString s n = CHR ''0'' # CHR ''.'' # replicate (nat (- n)) CHR ''0'' @ digits s"
  by (simp add: positive_toString_def Let_def)

lemma positive_toString_has_e:
  "CHR ''e'' \<in> set (positive_toString s n) \<longleftrightarrow> \<not> (- 5 \<le> n \<and> n \<le> 21)"
proof (cases "- 5 \<le> n \<and> n \<le> 21")
  case False
  then show ?thesis by (simp add: positive_toString_exponent)
next
  case True
  have "CHR ''e'' \<notin> set (take j (digits s))" "CHR ''e'' \<notin> set (drop j (digits s))" for j
    using digits_no_point(2)[of s] by (auto dest: in_set_takeD in_set_dropD)
  with True digits_no_point(2)[of s] show ?thesis
    by (auto simp: positive_toString_def Let_def)
qed

lemma positive_toString_has_point:
  assumes "- 5 \<le> n" and "n \<le> 21"
  shows "CHR ''.'' \<in> set (positive_toString s n) \<longleftrightarrow> n < int (length (digits s))"
proof (cases "n < int (length (digits s))")
  case True
  with assms show ?thesis by (auto simp: positive_toString_def Let_def)
next
  case False
  with assms digits_no_point(1)[of s] show ?thesis
    by (auto simp: positive_toString_whole)
qed

lemma positive_toString_hd_zero:
  assumes "- 5 \<le> n" and "n \<le> 21" and "n < int (length (digits s))" and "0 < s"
  shows "hd (positive_toString s n) = CHR ''0'' \<longleftrightarrow> n \<le> 0"
proof (cases "n \<le> 0")
  case True
  with assms show ?thesis by (simp add: positive_toString_fraction)
next
  case False
  then have "take (nat n) (digits s) \<noteq> []" using digits_nonempty[of s] by simp
  then have "hd (take (nat n) (digits s) @ CHR ''.'' # drop (nat n) (digits s)) = hd (digits s)"
    using False by (simp add: hd_append)
  with False assms hd_digits_nonzero[OF assms(4)] show ?thesis
    by (simp add: positive_toString_point)
qed

lemma positive_toString_inj:
  assumes s: "0 < s" "s mod 10 \<noteq> 0" and s': "0 < s'" "s' mod 10 \<noteq> 0"
    and eq: "positive_toString s n = positive_toString s' n'"
  shows "s = s' \<and> n = n'"
proof -
  let ?ds = "digits s" and ?ds' = "digits s'"
  have ne: "?ds \<noteq> []" "?ds' \<noteq> []" by (rule digits_nonempty)+
  have "?ds = ?ds' \<and> n = n'"
  proof (cases "- 5 \<le> n \<and> n \<le> 21")
    case False
    with eq positive_toString_has_e[of s n] positive_toString_has_e[of s' n']
    have r': "\<not> (- 5 \<le> n' \<and> n' \<le> 21)" by simp
    from eq have "mantissa ?ds @ CHR ''e'' # (if n < 0 then CHR ''-'' else CHR ''+'') # digits (nat \<bar>n - 1\<bar>) =
        mantissa ?ds' @ CHR ''e'' # (if n' < 0 then CHR ''-'' else CHR ''+'') # digits (nat \<bar>n' - 1\<bar>)"
      by (simp only: positive_toString_exponent[OF False] positive_toString_exponent[OF r'])
    from split_unique[OF mantissa_no_e[OF digits_no_point(2)] mantissa_no_e[OF digits_no_point(2)] this]
    have m: "mantissa ?ds = mantissa ?ds'"
      and t: "(if n < 0 then CHR ''-'' else CHR ''+'') # digits (nat \<bar>n - 1\<bar>) =
              (if n' < 0 then CHR ''-'' else CHR ''+'') # digits (nat \<bar>n' - 1\<bar>)"
      by simp_all
    from t have sg: "n < 0 \<longleftrightarrow> n' < 0" and "digits (nat \<bar>n - 1\<bar>) = digits (nat \<bar>n' - 1\<bar>)"
      by (auto split: if_splits)
    then have "nat \<bar>n - 1\<bar> = nat \<bar>n' - 1\<bar>" by (auto dest: digits_inj)
    with sg False r' have "n = n'" by auto
    with mantissa_inj[OF digits_no_point(1) digits_no_point(1) m] show ?thesis by simp
  next
    case True
    with eq positive_toString_has_e[of s n] positive_toString_has_e[of s' n']
    have r': "- 5 \<le> n' \<and> n' \<le> 21" by simp
    show ?thesis
    proof (cases "n < int (length ?ds)")
      case False
      with eq True r' positive_toString_has_point[of n s] positive_toString_has_point[of n' s']
      have w': "\<not> n' < int (length ?ds')" by simp
      from eq True r' False w'
      have "?ds @ replicate (nat (n - int (length ?ds))) CHR ''0'' =
            ?ds' @ replicate (nat (n' - int (length ?ds'))) CHR ''0''"
        by (simp add: positive_toString_whole)
      from trailing_unique[OF ne(1) last_digits_nonzero[OF s(2)] ne(2) last_digits_nonzero[OF s'(2)] this]
      have a: "nat (n - int (length ?ds)) = nat (n' - int (length ?ds'))" and d: "?ds = ?ds'"
        by blast+
      from d have "length ?ds = length ?ds'" by simp
      with a False w' have "n = n'" by arith
      with d show ?thesis by simp
    next
      case p: True
      with eq True r' positive_toString_has_point[of n s] positive_toString_has_point[of n' s']
      have p': "n' < int (length ?ds')" by simp
      from eq True r' p p' positive_toString_hd_zero[of n s] positive_toString_hd_zero[of n' s'] s(1) s'(1)
      have z: "n \<le> 0 \<longleftrightarrow> n' \<le> 0" by simp
      show ?thesis
      proof (cases "n \<le> 0")
        case True
        with z have z': "n' \<le> 0" by simp
        from eq \<open>- 5 \<le> n \<and> n \<le> 21\<close> r' p p' True z'
        have "replicate (nat (- n)) CHR ''0'' @ ?ds = replicate (nat (- n')) CHR ''0'' @ ?ds'"
          by (simp add: positive_toString_fraction)
        from leading_unique[OF ne(1) hd_digits_nonzero[OF s(1)] ne(2) hd_digits_nonzero[OF s'(1)] this]
        have a: "nat (- n) = nat (- n')" and d: "?ds = ?ds'" by simp_all
        from a True z' have "n = n'" by arith
        with d show ?thesis by simp
      next
        case False
        with z have z': "\<not> n' \<le> 0" by simp
        from eq \<open>- 5 \<le> n \<and> n \<le> 21\<close> r' p p' False z'
        have e: "take (nat n) ?ds @ CHR ''.'' # drop (nat n) ?ds =
              take (nat n') ?ds' @ CHR ''.'' # drop (nat n') ?ds'"
          by (simp add: positive_toString_point)
        have "CHR ''.'' \<notin> set (take (nat n) ?ds)" "CHR ''.'' \<notin> set (take (nat n') ?ds')"
          using digits_no_point(1) by (auto dest: in_set_takeD)
        from split_unique[OF this e]
        have tk: "take (nat n) ?ds = take (nat n') ?ds'" and dr: "drop (nat n) ?ds = drop (nat n') ?ds'"
          by simp_all
        from tk dr have "?ds = ?ds'" by (metis append_take_drop_id)
        moreover from tk have "length (take (nat n) ?ds) = length (take (nat n') ?ds')" by simp
        with p p' False z' have "n = n'" by (simp add: min_def split: if_splits)
        ultimately show ?thesis by simp
      qed
    qed
  qed
  then show ?thesis by (auto dest: digits_inj)
qed

lemma digit_value_range: "0 < digit_value d \<and> digit_value d < 10"
  by (cases d) simp_all

lemma digit_value_inj: "digit_value d = digit_value d' \<Longrightarrow> d = d'"
  by (cases d; cases d'; simp)

lemma significand_pos: "0 < significand q d" "significand q d mod 10 \<noteq> 0"
  using digit_value_range[of d] by (simp_all add: significand_def)

lemma significand_inj: "significand q d = significand q' d' \<Longrightarrow> q = q' \<and> d = d'"
proof -
  assume e: "significand q d = significand q' d'"
  have "significand q d div 10 = q" "significand q d mod 10 = digit_value d"
    "significand q' d' div 10 = q'" "significand q' d' mod 10 = digit_value d'"
    using digit_value_range[of d] digit_value_range[of d'] by (simp_all add: significand_def)
  with e show ?thesis by (auto dest: digit_value_inj)
qed

lemma hd_mantissa: "hd (mantissa ds @ r) = hd (ds @ r)"
  by (cases ds) (simp_all add: mantissa_def)

lemma mantissa_nonempty: "ds \<noteq> [] \<Longrightarrow> mantissa ds \<noteq> []"
  by (cases ds) (simp_all add: mantissa_def)

lemma all_numeric_digits: "\<forall>c \<in> set (digits s). is_numeric c"
  using digits_all_digit[of s] by (simp add: is_numeric_def)

lemma all_numeric_mantissa: "\<forall>c \<in> set ds. is_numeric c \<Longrightarrow> \<forall>c \<in> set (mantissa ds). is_numeric c"
  by (cases ds) (simp_all add: mantissa_def is_numeric_def)

lemma all_numeric_positive: "\<forall>c \<in> set (positive_toString s n). is_numeric c"
proof -
  have z: "is_numeric (CHR ''0'')" "is_numeric (CHR ''.'')" "is_numeric (CHR ''e'')"
    "is_numeric (CHR ''-'')" "is_numeric (CHR ''+'')"
    by (simp_all add: is_numeric_def is_digit_chars)
  have t: "\<forall>c \<in> set (take j (digits s)). is_numeric c" "\<forall>c \<in> set (drop j (digits s)). is_numeric c" for j
    using all_numeric_digits[of s] by (auto dest: in_set_takeD in_set_dropD)
  show ?thesis
    using z t all_numeric_digits all_numeric_mantissa[OF all_numeric_digits[of s]]
    by (auto simp: positive_toString_def Let_def)
qed

lemma all_numeric_Number: "\<forall>c \<in> set (Number_toString f). is_numeric c"
  using all_numeric_positive by (cases f) (auto simp: is_numeric_def is_digit_chars)

lemma positive_toString_nonempty: "positive_toString s n \<noteq> []"
  using digits_nonempty[of s] mantissa_nonempty[of "digits s"]
  by (auto simp: positive_toString_def Let_def)

lemma hd_positive_toString: "is_digit (hd (positive_toString s n @ r))"
proof -
  have d: "is_digit (hd (digits s @ q))" for q
    using hd_digits[of s] digits_nonempty[of s] by simp
  show ?thesis
  proof (cases "- 5 \<le> n \<and> n \<le> 21")
    case False
    have "hd ((mantissa (digits s) @ q) @ r) = hd (digits s @ q @ r)" for q
      using hd_mantissa[of "digits s" "q @ r"] by simp
    with d show ?thesis by (simp only: positive_toString_exponent[OF False])
  next
    case True
    show ?thesis
    proof (cases "n < int (length (digits s))")
      case False
      with True d[of "replicate (nat (n - int (length (digits s)))) CHR ''0'' @ r"] show ?thesis
        by (simp add: positive_toString_whole)
    next
      case k: True
      show ?thesis
      proof (cases "0 < n")
        case True
        then have "hd (take (nat n) (digits s) @ q) = hd (digits s)" for q
          using digits_nonempty[of s] by (cases "digits s") (simp_all add: take_Cons')
        from this[of "CHR ''.'' # drop (nat n) (digits s) @ r"] d[of "[]"] True k
          \<open>- 5 \<le> n \<and> n \<le> 21\<close>
        show ?thesis by (simp add: positive_toString_point)
      next
        case False
        with k \<open>- 5 \<le> n \<and> n \<le> 21\<close> show ?thesis
          by (simp add: positive_toString_fraction is_digit_chars)
      qed
    qed
  qed
qed

lemma positive_toString_not_zero: "0 < s \<Longrightarrow> positive_toString s n \<noteq> ''0''"
proof
  assume s: "0 < s" and e: "positive_toString s n = ''0''"
  from e positive_toString_has_e[of s n] have r: "- 5 \<le> n" "n \<le> 21" by auto
  from e positive_toString_has_point[OF r, of s] have w: "\<not> n < int (length (digits s))" by auto
  from e r w have "digits s @ replicate (nat (n - int (length (digits s)))) CHR ''0'' = ''0''"
    by (simp add: positive_toString_whole)
  then have "hd (digits s) = CHR ''0''" using digits_nonempty[of s] by (cases "digits s") simp_all
  with hd_digits_nonzero[OF s] show False by simp
qed

lemma Number_toString_inj: "Number_toString f = Number_toString g \<Longrightarrow> f = g"
proof (cases f)
  case Zero
  assume e: "Number_toString f = Number_toString g"
  show ?thesis
  proof (cases g)
    case (Decimal neg q d n)
    with e Zero positive_toString_not_zero[OF significand_pos(1), of q d n] show ?thesis
      by (auto split: if_splits)
  qed (simp add: Zero)
next
  case f: (Decimal neg q d n)
  assume e: "Number_toString f = Number_toString g"
  show ?thesis
  proof (cases g)
    case Zero
    with e f positive_toString_not_zero[OF significand_pos(1), of q d n] show ?thesis
      by (auto split: if_splits)
  next
    case g: (Decimal neg' q' d' n')
    have nm: "positive_toString a b \<noteq> CHR ''-'' # t" for a b t
      using hd_positive_toString[of a b "[]"] positive_toString_nonempty[of a b]
      by (cases "positive_toString a b") (auto simp: is_digit_chars)
    from e f g nm[of "significand q d" n] nm[of "significand q' d'" n']
    have sg: "neg = neg'"
      and p: "positive_toString (significand q d) n = positive_toString (significand q' d') n'"
      by (auto split: if_splits simp: eq_commute[of "CHR ''-'' # _"])
    from positive_toString_inj[OF significand_pos significand_pos p] significand_inj[of q d q' d']
    show ?thesis using sg f g by simp
  qed
qed

lemma delimited_not_numeric: "delimited r \<Longrightarrow> r = [] \<or> \<not> is_numeric (hd r)"
  by (auto simp: delimited_def is_numeric_def is_digit_def)

lemma Number_toString_prefix_free:
  assumes "Number_toString f @ r = Number_toString g @ r'" and "delimited r" and "delimited r'"
  shows "f = g \<and> r = r'"
  using span_unique[OF all_numeric_Number all_numeric_Number delimited_not_numeric[OF assms(2)]
      delimited_not_numeric[OF assms(3)] assms(1)]
  by (auto dest: Number_toString_inj)

lemma hd_Number_toString: "char_tag (hd (Number_toString f @ r)) = 2"
proof (cases f)
  case Zero
  then show ?thesis by (simp add: char_tag_def is_digit_chars)
next
  case (Decimal neg q d n)
  show ?thesis
  proof (cases neg)
    case True
    with Decimal show ?thesis by (simp add: char_tag_def)
  next
    case False
    with Decimal hd_positive_toString[of "significand q d" n r] show ?thesis
      by (auto simp: char_tag_def is_digit_def)
  qed
qed

subsection \<open>The serialisation of parsed JSON is injective\<close>

lemma Number_toString_nonempty: "Number_toString f \<noteq> []"
  using positive_toString_nonempty by (cases f) simp_all

lemma char_eq_by_div_mod:
  assumes "(of_char c :: nat) div 16 = of_char d div 16"
    and "(of_char c :: nat) mod 16 = of_char d mod 16"
  shows "c = d"
proof -
  have "(of_char c :: nat) = of_char d"
    using assms by (metis div_mult_mod_eq)
  then show ?thesis by simp
qed

lemma escape_char_prefix_free:
  "escape_char c @ x = escape_char d @ y \<Longrightarrow> c = d \<and> x = y"
  unfolding escape_char_def
  by (auto split: if_splits dest!: hex_char_inj[rotated 2] intro: char_eq_by_div_mod)

lemma escape_char_not_quote: "escape_char c @ x \<noteq> CHR 0x22 # y"
  unfolding escape_char_def by (auto split: if_splits)

lemma escaped_prefix_free:
  "concat (map escape_char s) @ CHR 0x22 # r = concat (map escape_char t) @ CHR 0x22 # r'
   \<Longrightarrow> s = t \<and> r = r'"
proof (induction s arbitrary: t)
  case Nil
  show ?case
  proof (cases t)
    case Nil
    with Nil.prems show ?thesis by simp
  next
    case (Cons d t')
    with Nil.prems
    have "escape_char d @ (concat (map escape_char t') @ CHR 0x22 # r') = CHR 0x22 # r"
      by simp
    with escape_char_not_quote show ?thesis by blast
  qed
next
  case (Cons c s)
  show ?case
  proof (cases t)
    case Nil
    with Cons.prems
    have "escape_char c @ (concat (map escape_char s) @ CHR 0x22 # r) = CHR 0x22 # r'"
      by simp
    with escape_char_not_quote show ?thesis by blast
  next
    case (Cons d t')
    with Cons.prems
    have "escape_char c @ (concat (map escape_char s) @ CHR 0x22 # r) =
          escape_char d @ (concat (map escape_char t') @ CHR 0x22 # r')"
      by simp
    from escape_char_prefix_free[OF this]
    have "c = d" and "concat (map escape_char s) @ CHR 0x22 # r =
        concat (map escape_char t') @ CHR 0x22 # r'"
      by simp_all
    with Cons.IH[of t'] Cons show ?thesis by simp
  qed
qed

lemma quote_prefix_free: "quote s @ r = quote t @ r' \<Longrightarrow> s = t \<and> r = r'"
  using escaped_prefix_free[of s r t r'] by (simp add: quote_def)

lemma char_tag_stringify: "char_tag (hd (JSON_stringify v @ r)) = tag v"
  by (cases v) (simp_all add: tag_def hd_Number_toString quote_def, simp_all add: char_tag_def is_digit_def)

lemma stringify_same_tag: "JSON_stringify a @ r = JSON_stringify b @ r' \<Longrightarrow> tag a = tag b"
  using char_tag_stringify[of a r] char_tag_stringify[of b r'] by simp

lemma stringify_not_delimited: "\<not> delimited (JSON_stringify v @ r)"
proof
  assume d: "delimited (JSON_stringify v @ r)"
  have ne: "JSON_stringify v @ r \<noteq> []"
    using Number_toString_nonempty by (cases v) (simp_all add: quote_def)
  with d have "char_tag (hd (JSON_stringify v @ r)) = 6"
    by (auto simp: delimited_def char_tag_def is_digit_def)
  with char_tag_stringify[of v r] show False
    by (cases v) (simp_all add: tag_def)
qed

lemma join_comma_Cons:
  "join_comma (x # xs) @ q = x @ (if xs = [] then q else CHR '','' # join_comma xs @ q)"
  by (cases xs) simp_all

lemma join_comma_prefix_free:
  fixes f :: "'a \<Rightarrow> string"
  assumes pf: "\<And>x y r r'. x \<in> set xs \<Longrightarrow> f x @ r = f y @ r' \<Longrightarrow> delimited r \<Longrightarrow> delimited r'
                \<Longrightarrow> x = y \<and> r = r'"
    and st: "\<And>x r. \<not> delimited (f x @ r)"
    and e: "e = CHR '']'' \<or> e = CHR ''}''"
    and eq: "join_comma (map f xs) @ e # r = join_comma (map f ys) @ e # r'"
  shows "xs = ys \<and> r = r'"
  using pf eq
proof (induction xs arbitrary: ys)
  case Nil
  show ?case
  proof (cases ys)
    case Nil
    with Nil.prems(2) show ?thesis by simp
  next
    case (Cons y ys')
    with Nil.prems(2) have "f y @ (if ys' = [] then e # r' else CHR '','' # join_comma (map f ys') @ e # r') = e # r"
      using join_comma_Cons[of "f y" "map f ys'" "e # r'"] by simp
    then have "delimited (f y @ (if ys' = [] then e # r' else CHR '','' # join_comma (map f ys') @ e # r'))"
      using e by (auto simp: delimited_def)
    with st show ?thesis by blast
  qed
next
  case (Cons x xs')
  let ?tx = "if xs' = [] then e # r else CHR '','' # join_comma (map f xs') @ e # r"
  have dx: "delimited ?tx" using e by (auto simp: delimited_def)
  show ?case
  proof (cases ys)
    case Nil
    with Cons.prems(2) have "f x @ ?tx = e # r'"
      using join_comma_Cons[of "f x" "map f xs'" "e # r"] by simp
    then have "delimited (f x @ ?tx)" using e by (auto simp: delimited_def)
    with st show ?thesis by blast
  next
    case ys: (Cons y ys')
    let ?ty = "if ys' = [] then e # r' else CHR '','' # join_comma (map f ys') @ e # r'"
    have dy: "delimited ?ty" using e by (auto simp: delimited_def)
    from Cons.prems(2) ys have "f x @ ?tx = f y @ ?ty"
      using join_comma_Cons[of "f x" "map f xs'" "e # r"]
        join_comma_Cons[of "f y" "map f ys'" "e # r'"] by simp
    from Cons.prems(1)[OF _ this dx dy] have xy: "x = y" and t: "?tx = ?ty" by simp_all
    show ?thesis
    proof (cases "xs' = []")
      case True
      with t e have "ys' = [] \<and> r = r'" by (auto split: if_splits)
      with True xy ys show ?thesis by simp
    next
      case False
      with t e have ne: "ys' \<noteq> []"
        and "join_comma (map f xs') @ e # r = join_comma (map f ys') @ e # r'"
        by (auto split: if_splits)
      moreover have "\<And>x y r r'. x \<in> set xs' \<Longrightarrow> f x @ r = f y @ r' \<Longrightarrow> delimited r
          \<Longrightarrow> delimited r' \<Longrightarrow> x = y \<and> r = r'"
        by (rule Cons.prems(1)) simp_all
      ultimately have "xs' = ys' \<and> r = r'" by (intro Cons.IH)
      with xy ys show ?thesis by simp
    qed
  qed
qed

lemma tag_cases:
  "tag b = 0 \<Longrightarrow> b = JNull"
  "tag b = 1 \<Longrightarrow> \<exists>x. b = JBool x"
  "tag b = 2 \<Longrightarrow> \<exists>x. b = JNum x"
  "tag b = 3 \<Longrightarrow> \<exists>x. b = JStr x"
  "tag b = 4 \<Longrightarrow> \<exists>x. b = JArr x"
  "tag b = 5 \<Longrightarrow> \<exists>x. b = JObj x"
  by (cases b; simp add: tag_def)+

lemma member_not_delimited: "\<not> delimited ((case kv of (k, v) \<Rightarrow> quote k @ CHR '':'' # JSON_stringify v) @ r)"
  by (cases kv) (simp add: delimited_def quote_def)

lemma stringify_prefix_free:
  "JSON_stringify a @ r = JSON_stringify b @ r' \<Longrightarrow> delimited r \<Longrightarrow> delimited r'
   \<Longrightarrow> a = b \<and> r = r'"
proof (induction a arbitrary: b r r' rule: JSON_stringify.induct)
  case 1
  from stringify_same_tag[OF "1.prems"(1)] have "b = JNull"
    by (simp add: tag_def tag_cases)
  with "1.prems"(1) show ?case by simp
next
  case (2 v)
  from stringify_same_tag[OF "2.prems"(1)] obtain w where b: "b = JBool w"
    using tag_cases(2)[of b] by (auto simp: tag_def)
  with "2.prems"(1) show ?case by (cases v; cases w; simp)
next
  case (3 n)
  from stringify_same_tag[OF "3.prems"(1)] obtain m where b: "b = JNum m"
    using tag_cases(3)[of b] by (auto simp: tag_def)
  with "3.prems" Number_toString_prefix_free[of n r m r'] show ?case by simp
next
  case (4 s)
  from stringify_same_tag[OF "4.prems"(1)] obtain t where b: "b = JStr t"
    using tag_cases(4)[of b] by (auto simp: tag_def)
  with "4.prems" quote_prefix_free[of s r t r'] show ?case by simp
next
  case (5 xs)
  from stringify_same_tag[OF "5.prems"(1)] obtain ys where b: "b = JArr ys"
    using tag_cases(5)[of b] by (auto simp: tag_def)
  with "5.prems"(1)
  have eq: "join_comma (map JSON_stringify xs) @ CHR '']'' # r =
            join_comma (map JSON_stringify ys) @ CHR '']'' # r'"
    by simp
  have "xs = ys \<and> r = r'"
  proof (rule join_comma_prefix_free[where f = JSON_stringify and e = "CHR '']''", OF _ _ _ eq])
    fix x y q q'
    assume "x \<in> set xs" "JSON_stringify x @ q = JSON_stringify y @ q'" "delimited q" "delimited q'"
    then show "x = y \<and> q = q'" by (rule "5.IH")
  qed (simp_all add: stringify_not_delimited)
  with b show ?case by simp
next
  case (6 kvs)
  from stringify_same_tag[OF "6.prems"(1)] obtain kvs' where b: "b = JObj kvs'"
    using tag_cases(6)[of b] by (auto simp: tag_def)
  let ?f = "\<lambda>(k, v). quote k @ CHR '':'' # JSON_stringify v"
  from b "6.prems"(1)
  have eq: "join_comma (map ?f kvs) @ CHR ''}'' # r = join_comma (map ?f kvs') @ CHR ''}'' # r'"
    by simp
  have "kvs = kvs' \<and> r = r'"
  proof (rule join_comma_prefix_free[where f = ?f and e = "CHR ''}''", OF _ _ _ eq])
    fix x y q q'
    assume x: "x \<in> set kvs" and e: "?f x @ q = ?f y @ q'" and d: "delimited q" "delimited q'"
    obtain k v where xk: "x = (k, v)" by (cases x)
    obtain k' v' where yk: "y = (k', v')" by (cases y)
    from e xk yk
    have "quote k @ (CHR '':'' # JSON_stringify v @ q) = quote k' @ (CHR '':'' # JSON_stringify v' @ q')"
      by simp
    from quote_prefix_free[OF this]
    have kk: "k = k'" and vv: "JSON_stringify v @ q = JSON_stringify v' @ q'" by simp_all
    from "6.IH"[OF x xk[symmetric] vv d] kk xk yk show "x = y \<and> q = q'" by simp
  qed (simp_all add: member_not_delimited)
  with b show ?case by simp
qed

lemma JSON_stringify_inj: "JSON_stringify a = JSON_stringify b \<longleftrightarrow> a = b"
  using stringify_prefix_free[of a "[]" b "[]"] by (auto simp: delimited_def)

subsection \<open>The round trip\<close>

lemma round_trip_serialisation:
  "SerializeJSONProperty v = map_option JSON_stringify (JSON_round_trip v)"
proof (induction v rule: SerializeJSONProperty.induct)
  case (4 x)
  show ?case by (cases x) simp_all
next
  case (6 xs)
  have e: "map (\<lambda>x. case SerializeJSONProperty x of None \<Rightarrow> ''null'' | Some t \<Rightarrow> t) xs =
        map (\<lambda>x. JSON_stringify (case JSON_round_trip x of None \<Rightarrow> JNull | Some j \<Rightarrow> j)) xs"
    by (rule map_cong[OF refl]) (use "6.IH" in \<open>auto split: option.splits\<close>)
  show ?case
    unfolding SerializeJSONProperty.simps JSON_round_trip.simps e
    by (simp add: comp_def)
next
  case (7 kvs)
  have e: "map (\<lambda>(k, v). case SerializeJSONProperty v of
                         None \<Rightarrow> [] | Some t \<Rightarrow> [quote k @ CHR '':'' # t]) kvs =
        map (\<lambda>(k, v). map (\<lambda>(k, j). quote k @ CHR '':'' # JSON_stringify j)
                         (case JSON_round_trip v of None \<Rightarrow> [] | Some j \<Rightarrow> [(k, j)])) kvs"
    by (rule map_cong[OF refl]) (use "7.IH" in \<open>auto split: option.splits\<close>)
  show ?case
    unfolding SerializeJSONProperty.simps JSON_round_trip.simps e
    by (simp add: map_concat comp_def case_prod_unfold)
qed simp_all

lemma round_trip_raw: "JSON_round_trip (raw j) = Some j"
proof (induction j rule: raw.induct)
  case (5 xs)
  have e: "map (\<lambda>x. case JSON_round_trip x of None \<Rightarrow> JNull | Some j \<Rightarrow> j) (map raw xs) = xs"
    using "5.IH" by (simp add: comp_def map_idI)
  show ?case unfolding raw.simps JSON_round_trip.simps e by simp
next
  case (6 kvs)
  have m: "map (\<lambda>(k, v). case JSON_round_trip v of None \<Rightarrow> [] | Some j \<Rightarrow> [(k, j)])
          (map (\<lambda>(k, v). (k, raw v)) kvs) = map (\<lambda>kv. [kv]) kvs"
    unfolding map_map by (rule map_cong[OF refl]) (use "6.IH" in auto)
  have e: "concat (map (\<lambda>(k, v). case JSON_round_trip v of None \<Rightarrow> [] | Some j \<Rightarrow> [(k, j)])
          (map (\<lambda>(k, v). (k, raw v)) kvs)) = kvs"
    unfolding m by simp
  show ?case unfolding raw.simps JSON_round_trip.simps e by simp
qed simp_all

lemma stringify_raw: "SerializeJSONProperty (raw j) = Some (JSON_stringify j)"
  by (simp add: round_trip_serialisation round_trip_raw)

lemma cloneBlocks_raw: "cloneBlocks (map raw bs) = bs"
  by (simp add: cloneBlocks_def comp_def round_trip_raw)

lemma stringify_blocks:
  "SerializeJSONProperty (Array bs) = Some (JSON_stringify (JArr (cloneBlocks bs)))"
  using round_trip_serialisation[of "Array bs"] by (simp add: cloneBlocks_def)

lemma cloneBlocks_serialisation:
  "SerializeJSONProperty (Array (map raw (cloneBlocks bs))) = SerializeJSONProperty (Array bs)"
  by (simp only: stringify_blocks cloneBlocks_raw)

subsection \<open>Change detection\<close>

text \<open>
  Claim C4, amended. \<open>hasChanged\<close> is true exactly when the round trip of the candidate
  through JSON, which is what a push would store, differs from the blocks of the current
  snapshot as ordered data: the blocks in order and, in every object, the same keys in
  the same order with the same values. Without a current snapshot it is true exactly when
  the candidate has a block. The round trip of parsed JSON is that JSON itself, so a
  candidate that is parsed JSON is compared as it is.
\<close>

theorem hasChanged_ordered_equality:
  "(hasChanged m bs \<longleftrightarrow>
     (case at_index (history m) (position m) of
        None \<Rightarrow> bs \<noteq> []
      | Some item \<Rightarrow> blocks item \<noteq> cloneBlocks bs))
   \<and> cloneBlocks (map raw js) = js"
proof -
  define cur where
    "cur = (case at_index (history m) (position m) of None \<Rightarrow> [] | Some item \<Rightarrow> blocks item)"
  have "(case at_index (history m) (position m) of None \<Rightarrow> [] | Some item \<Rightarrow> map raw (blocks item)) =
      map raw cur"
    by (simp add: cur_def split: option.splits)
  then have "hasChanged m bs \<longleftrightarrow>
      JSON_stringify (JArr cur) \<noteq> JSON_stringify (JArr (cloneBlocks bs))"
    unfolding hasChanged_def Let_def
    by (simp only: stringify_blocks cloneBlocks_raw option.inject)
  also have "\<dots> \<longleftrightarrow> cur \<noteq> cloneBlocks bs"
    by (simp only: JSON_stringify_inj json.inject)
  finally have "hasChanged m bs \<longleftrightarrow>
     (case at_index (history m) (position m) of
        None \<Rightarrow> bs \<noteq> []
      | Some item \<Rightarrow> blocks item \<noteq> cloneBlocks bs)"
    by (auto simp: cur_def cloneBlocks_def split: option.splits)
  then show ?thesis by (simp add: cloneBlocks_raw)
qed

theorem hasChanged_ordered_equality_witness:
  "at_index (history (mgr (run [Initialize (Wrapper (Some odd_doc))] (boot default_config))))
      (position (mgr (run [Initialize (Wrapper (Some odd_doc))] (boot default_config)))) =
     Some \<lparr>blocks = cloneBlocks odd_doc, caretBlockIndex = None, caretOffset = None\<rparr>
   \<and> cloneBlocks odd_doc = cloneBlocks odd_doc_parsed
   \<and> \<not> hasChanged (mgr (run [Initialize (Wrapper (Some odd_doc))] (boot default_config)))
        odd_doc_parsed
   \<and> hasChanged (mgr (run [Initialize (Wrapper (Some odd_doc))] (boot default_config))) first_doc
   \<and> at_index (history (mgr (boot default_config))) (position (mgr (boot default_config))) = None
   \<and> hasChanged (mgr (boot default_config)) first_doc"
proof -
  let ?m = "mgr (run [Initialize (Wrapper (Some odd_doc))] (boot default_config))"
  have a: "at_index (history ?m) (position ?m) =
      Some \<lparr>blocks = cloneBlocks odd_doc, caretBlockIndex = None, caretOffset = None\<rparr>"
    by code_simp
  have b: "at_index (history (mgr (boot default_config))) (position (mgr (boot default_config))) = None"
    by code_simp
  have c: "cloneBlocks odd_doc = cloneBlocks odd_doc_parsed" by code_simp
  have d: "cloneBlocks odd_doc \<noteq> cloneBlocks first_doc" by code_simp
  have e: "first_doc \<noteq> []" by (simp add: first_doc_def)
  from hasChanged_ordered_equality[of ?m odd_doc_parsed] hasChanged_ordered_equality[of ?m first_doc]
    hasChanged_ordered_equality[of "mgr (boot default_config)" first_doc] a b c d e
  show ?thesis by simp
qed

text \<open>
  Claim C4 as worded fails three times.
  A candidate that is the current snapshot with the keys of its block in another order is
  structurally equal to it and counts as changed; a candidate with NaN where the snapshot
  has null is not structurally equal to it and counts as unchanged; on the empty history
  the empty candidate counts as unchanged.
\<close>

theorem hasChanged_counterexample:
  "at_index (history (mgr (run [Initialize (Wrapper (Some first_doc))] (boot default_config))))
      (position (mgr (run [Initialize (Wrapper (Some first_doc))] (boot default_config)))) =
     Some \<lparr>blocks = cloneBlocks first_doc, caretBlockIndex = None, caretOffset = None\<rparr>
   \<and> struct_eq (Array (map raw (cloneBlocks first_doc))) (Array reordered_doc)
   \<and> hasChanged (mgr (run [Initialize (Wrapper (Some first_doc))] (boot default_config))) reordered_doc
   \<and> at_index (history (mgr (run [Initialize (Wrapper (Some null_doc))] (boot default_config))))
      (position (mgr (run [Initialize (Wrapper (Some null_doc))] (boot default_config)))) =
     Some \<lparr>blocks = cloneBlocks null_doc, caretBlockIndex = None, caretOffset = None\<rparr>
   \<and> \<not> struct_eq (Array (map raw (cloneBlocks null_doc))) (Array nan_doc)
   \<and> \<not> hasChanged (mgr (run [Initialize (Wrapper (Some null_doc))] (boot default_config))) nan_doc
   \<and> history (mgr (boot default_config)) = []
   \<and> \<not> hasChanged (mgr (boot default_config)) []"
  by code_simp

subsection \<open>The history invariants\<close>

lemma splice_front:
  "splice xs 0 (Some dc) = drop (nat (clamp_count dc (int (length xs)))) xs"
  by (simp add: splice_def Let_def)

lemma splice_tail: "0 \<le> start \<Longrightarrow> splice xs start None = take (nat start) xs"
  by (simp add: splice_def Let_def min_def max_def)

lemma trimHistory_config: "config (trimHistory m) = config m"
  by (simp add: trimHistory_def Let_def)

lemma trimHistory_history:
  assumes "hist_inv m"
  shows "history (trimHistory m) =
     drop (removed (int (length (take (nat (position m + 1)) (history m)))) (maxHistory (config m)))
       (take (nat (position m + 1)) (history m))"
proof -
  have "(if position m < int (length (history m)) - 1
         then splice (history m) (position m + 1) None else history m)
        = take (nat (position m + 1)) (history m)"
    using assms by (auto simp: hist_inv_def splice_tail)
  then show ?thesis
    by (simp add: trimHistory_def Let_def splice_front removed_def if_distrib[of history]
        cong: if_cong)
qed

lemma floor_length_minus: "\<lfloor>of_int l - r + 1\<rfloor> = l + 1 - \<lceil>r :: rat\<rceil>"
proof -
  have a: "\<lfloor>- r + of_int (l + 1)\<rfloor> = \<lfloor>- r\<rfloor> + (l + 1)" by (rule floor_add_int[symmetric])
  have b: "of_int l - r + 1 = - r + of_int (l + 1)" by simp
  have "\<lfloor>of_int l - r + 1\<rfloor> = \<lfloor>- r\<rfloor> + (l + 1)" unfolding b by (rule a)
  then show ?thesis unfolding ceiling_def by linarith
qed

lemma removed_at_least_one:
  assumes "1 \<le> r" and "0 \<le> l"
  shows "removed l (Amount r) = nat (l + 1 - \<lceil>r\<rceil>)"
proof (cases "r \<le> of_int l")
  case True
  then have c: "\<lceil>r\<rceil> \<le> l" by (simp add: ceiling_le_iff)
  from assms(1) have "1 \<le> \<lceil>r\<rceil>" by (simp add: le_ceiling_iff)
  with True c show ?thesis
    by (simp add: removed_def length_ge_def length_minus_plus_one_def clamp_count_def
        to_integer_def floor_length_minus)
next
  case False
  then have "l < \<lceil>r\<rceil>" by (simp add: less_ceiling_iff)
  with False show ?thesis
    by (simp add: removed_def length_ge_def)
qed

lemma removed_infinite: "removed l PlusInfinity = 0" "removed l NotANumber = 0"
  by (simp_all add: removed_def length_ge_def)

lemma drop_removed:
  assumes "int (length xs) = l"
  shows "drop (removed l x) xs =
     drop (case x of
             Amount r \<Rightarrow> if r \<le> of_int l then nat \<lfloor>of_int l - r + 1\<rfloor> else 0
           | MinusInfinity \<Rightarrow> nat l
           | _ \<Rightarrow> 0) xs"
proof (cases x)
  case (Amount r)
  show ?thesis
  proof (cases "r \<le> of_int l")
    case True
    then have "0 < of_int l - r + 1" by simp
    then have t: "to_integer (of_int l - r + 1) = \<lfloor>of_int l - r + 1\<rfloor>"
      by (simp add: to_integer_def)
    from True have "(0::int) < \<lfloor>of_int l - r + 1\<rfloor>" by (simp add: floor_length_minus ceiling_le_iff)
    with True Amount t assms show ?thesis
      by (auto simp: removed_def length_ge_def length_minus_plus_one_def clamp_count_def min_def)
  next
    case False
    with Amount show ?thesis by (simp add: removed_def length_ge_def)
  qed
next
  case MinusInfinity
  then show ?thesis
    by (simp add: removed_def length_ge_def length_minus_plus_one_def clamp_count_def)
qed (simp_all add: removed_infinite)

lemma push_history:
  "history (push out caret m) = history (trimHistory m) @
     [\<lparr>blocks = cloneBlocks out, caretBlockIndex = blockIndex caret, caretOffset = offset caret\<rparr>]"
  by (simp add: push_def notify_def Let_def)

lemma push_position:
  "position (push out caret m) = int (length (history (trimHistory m)))"
  by (simp add: push_def notify_def Let_def)

lemma push_notified:
  "notified (push out caret m) = notified m @ [getState (push out caret m)]"
  by (simp add: push_def notify_def Let_def getState_def canUndo_def canRedo_def trimHistory_def)

lemma hist_inv_push: "hist_inv (push out caret m)"
  by (simp add: hist_inv_def push_history push_position)

lemma hist_inv_initialize: "hist_inv (initialize d m)"
  by (simp add: hist_inv_def initialize_def notify_def Let_def)

lemma hist_inv_undo: "hist_inv m \<Longrightarrow> hist_inv (snd (undo m))"
  by (auto simp: hist_inv_def undo_def canUndo_def notify_def restore_def Let_def split: option.splits)

lemma hist_inv_redo: "hist_inv m \<Longrightarrow> hist_inv (snd (redo m))"
  by (auto simp: hist_inv_def redo_def canRedo_def notify_def restore_def Let_def split: option.splits)

lemma hist_inv_resume: "hist_inv m \<Longrightarrow> hist_inv (captureSnapshot_resume out caret m)"
  using hist_inv_push[of out caret m]
  by (simp add: captureSnapshot_resume_def Let_def hist_inv_def)

lemma hist_inv_flags:
  "hist_inv (m\<lparr>isSaving := b\<rparr>) = hist_inv m"
  "hist_inv (m\<lparr>pendingSave := b\<rparr>) = hist_inv m"
  by (simp_all add: hist_inv_def)

lemma hist_inv_exec: "hist_inv (mgr s) \<Longrightarrow> hist_inv (mgr (exec e s))"
proof (cases e)
  case (SaveResolves out caret)
  assume a: "hist_inv (mgr s)"
  from a hist_inv_resume[OF a, of out caret] show ?thesis
    by (auto simp: SaveResolves save_resolves_def Let_def captureSnapshot_begin_def
        hist_inv_flags split: option.splits)
next
  case (KeyDown ev)
  assume "hist_inv (mgr s)"
  then show ?thesis
    by (simp add: KeyDown handleKeyDown_def hist_inv_undo hist_inv_redo)
next
  case TimerFires
  assume "hist_inv (mgr s)"
  then show ?thesis
    by (auto simp: TimerFires timer_fires_def captureSnapshot_begin_def Let_def
        hist_inv_flags split: option.splits)
next
  case SaveRejects
  assume "hist_inv (mgr s)"
  then show ?thesis
    by (auto simp: SaveRejects save_rejects_def captureSnapshot_reject_def
        hist_inv_flags split: option.splits)
qed (simp_all add: hist_inv_initialize hist_inv_undo hist_inv_redo handleEditorChange_def)

lemma hist_inv_run: "hist_inv (mgr s) \<Longrightarrow> hist_inv (mgr (run evs s))"
  unfolding run_def by (induction evs arbitrary: s) (simp_all add: hist_inv_exec)

lemma hist_inv_boot: "hist_inv (mgr (boot c))"
  by (simp add: boot_def constructor_def hist_inv_def)

lemma reachable_inv: "hist_inv (mgr (run evs (boot c)))"
  by (simp add: hist_inv_run hist_inv_boot)

lemma config_exec: "config (mgr (exec e s)) = config (mgr s)"
  by (cases e)
    (auto simp: initialize_def notify_def handleEditorChange_def timer_fires_def save_resolves_def
      save_rejects_def captureSnapshot_begin_def captureSnapshot_reject_def captureSnapshot_resume_def
      push_def trimHistory_config handleKeyDown_def undo_def redo_def restore_def Let_def
      split: option.splits)

lemma config_run: "config (mgr (run evs s)) = config (mgr s)"
  unfolding run_def by (induction evs arbitrary: s) (simp_all add: config_exec)

lemma push_bounded:
  assumes "hist_inv m" and "at_least_one (maxHistory (config m))"
  shows "bounded (push out caret m)"
proof (cases "maxHistory (config m)")
  case (Amount r)
  with assms(2) have r: "1 \<le> r" by (simp add: at_least_one_def)
  then have c: "1 \<le> \<lceil>r\<rceil>" by (simp add: le_ceiling_iff)
  have cfg: "config (push out caret m) = config m"
    by (simp add: push_def notify_def trimHistory_config Let_def)
  let ?kept = "take (nat (position m + 1)) (history m)"
  have t: "history (trimHistory m) = drop (nat (int (length ?kept) + 1 - \<lceil>r\<rceil>)) ?kept"
    by (simp only: trimHistory_history[OF assms(1)] Amount removed_at_least_one[OF r of_nat_0_le_iff])
  have "int (length (history (trimHistory m))) \<le> \<lceil>r\<rceil> - 1"
    unfolding t length_drop using c by arith
  with cfg Amount show ?thesis by (simp add: bounded_def push_history)
next
  case PlusInfinity
  then show ?thesis by (simp add: bounded_def push_def notify_def trimHistory_config Let_def)
qed (use assms(2) in \<open>simp_all add: at_least_one_def\<close>)

lemma bounded_cong:
  "history m' = history m \<Longrightarrow> config m' = config m \<Longrightarrow> bounded m' = bounded m"
  by (simp add: bounded_def split: amount.splits)

lemma bounded_updates:
  "bounded (m\<lparr>isSaving := b\<rparr>) = bounded m"
  "bounded (m\<lparr>pendingSave := b\<rparr>) = bounded m"
  by (rule bounded_cong; simp)+

lemma undo_keeps: "history (snd (undo m)) = history m" "config (snd (undo m)) = config m"
  by (simp_all add: undo_def notify_def restore_def Let_def split: option.splits)

lemma redo_keeps: "history (snd (redo m)) = history m" "config (snd (redo m)) = config m"
  by (simp_all add: redo_def notify_def restore_def Let_def split: option.splits)

lemma bounded_undo: "bounded (snd (undo m)) = bounded m"
  by (rule bounded_cong) (simp_all add: undo_keeps)

lemma bounded_redo: "bounded (snd (redo m)) = bounded m"
  by (rule bounded_cong) (simp_all add: redo_keeps)

lemma bounded_initialize: "at_least_one (maxHistory (config m)) \<Longrightarrow> bounded (initialize d m)"
  by (auto simp: initialize_def bounded_def notify_def Let_def at_least_one_def le_ceiling_iff
      split: amount.splits)

lemma bounded_resume:
  "hist_inv m \<Longrightarrow> at_least_one (maxHistory (config m)) \<Longrightarrow> bounded m \<Longrightarrow>
   bounded (captureSnapshot_resume out caret m)"
  using push_bounded[of m out caret]
  by (simp add: captureSnapshot_resume_def Let_def bounded_updates)

lemma bounded_exec:
  assumes "hist_inv (mgr s)" and "at_least_one (maxHistory (config (mgr s)))" and "bounded (mgr s)"
  shows "bounded (mgr (exec e s))"
proof (cases e)
  case (SaveResolves out caret)
  from assms(3) bounded_resume[OF assms, of out caret] show ?thesis
    by (auto simp: SaveResolves save_resolves_def Let_def captureSnapshot_begin_def
        bounded_updates split: option.splits)
next
  case (KeyDown ev)
  from assms(3) show ?thesis
    by (simp add: KeyDown handleKeyDown_def bounded_undo bounded_redo)
next
  case TimerFires
  from assms(3) show ?thesis
    by (auto simp: TimerFires timer_fires_def captureSnapshot_begin_def Let_def
        bounded_updates split: option.splits)
next
  case SaveRejects
  from assms(3) show ?thesis
    by (auto simp: SaveRejects save_rejects_def captureSnapshot_reject_def
        bounded_updates split: option.splits)
qed (use assms in \<open>simp_all add: bounded_initialize bounded_undo bounded_redo handleEditorChange_def\<close>)

lemma bounded_run:
  "hist_inv (mgr s) \<Longrightarrow> at_least_one (maxHistory (config (mgr s))) \<Longrightarrow> bounded (mgr s) \<Longrightarrow>
   bounded (mgr (run evs s))"
  unfolding run_def
  by (induction evs arbitrary: s) (simp_all add: bounded_exec hist_inv_exec config_exec)

lemma bounded_boot:
  "at_least_one (maxHistory (config (mgr (boot c)))) \<Longrightarrow> bounded (mgr (boot c))"
  by (auto simp: boot_def constructor_def bounded_def at_least_one_def le_ceiling_iff
      split: amount.splits option.splits)

subsection \<open>Pushing a snapshot\<close>

lemma save_resolves_pushes:
  assumes "awaiting s = Some a" and "hasChanged (mgr s) output"
  shows "history (mgr (save_resolves output caret s)) = history (push output caret (mgr s))"
    and "position (mgr (save_resolves output caret s)) = position (push output caret (mgr s))"
    and "notified (mgr (save_resolves output caret s)) = notified (push output caret (mgr s))"
  using assms
  by (cases a; simp add: save_resolves_def captureSnapshot_resume_def captureSnapshot_begin_def
        Let_def)+

lemma push_history_reachable:
  assumes "hist_inv (mgr s)" and "awaiting s \<noteq> None" and "hasChanged (mgr s) out"
  shows "history (mgr (exec (SaveResolves out caret) s)) =
     drop (removed (int (length (take (nat (position (mgr s) + 1)) (history (mgr s)))))
            (maxHistory (config (mgr s))))
       (take (nat (position (mgr s) + 1)) (history (mgr s))) @
     [\<lparr>blocks = cloneBlocks out, caretBlockIndex = blockIndex caret, caretOffset = offset caret\<rparr>]"
proof -
  from assms(2) obtain a where a: "awaiting s = Some a" by auto
  show ?thesis
    using save_resolves_pushes(1)[OF a assms(3), of caret]
    by (simp add: push_history trimHistory_history[OF assms(1)])
qed

text \<open>
  Claim C1. After any sequence of operations, when the save of a capture in flight resolves
  with content that has changed, the snapshot is pushed, and right after that push the
  position is the last index of the history and \<open>canRedo()\<close> is false.
\<close>

theorem push_points_at_tail:
  assumes "s = run evs (boot c)"
    and "awaiting s \<noteq> None"
    and "hasChanged (mgr s) output"
    and "s' = exec (SaveResolves output caret) s"
  shows "position (mgr s') = int (length (history (mgr s'))) - 1 \<and> \<not> canRedo (mgr s')"
proof -
  from assms(2) obtain a where a: "awaiting s = Some a" by auto
  have h: "history (mgr s') = history (push output caret (mgr s))"
    and p: "position (mgr s') = position (push output caret (mgr s))"
    using save_resolves_pushes[OF a assms(3)] assms(4) by simp_all
  show ?thesis
    by (simp add: h p push_history push_position canRedo_def)
qed

theorem push_points_at_tail_witness:
  "awaiting (run [Initialize (Wrapper (Some first_doc)), HandleEditorChange, TimerFires]
       (boot default_config)) \<noteq> None
   \<and> hasChanged (mgr (run [Initialize (Wrapper (Some first_doc)), HandleEditorChange, TimerFires]
       (boot default_config))) second_doc
   \<and> position (mgr (exec (SaveResolves second_doc no_caret)
        (run [Initialize (Wrapper (Some first_doc)), HandleEditorChange, TimerFires]
           (boot default_config)))) = 1
   \<and> \<not> canRedo (mgr (exec (SaveResolves second_doc no_caret)
        (run [Initialize (Wrapper (Some first_doc)), HandleEditorChange, TimerFires]
           (boot default_config))))"
proof -
  let ?s = "run [Initialize (Wrapper (Some first_doc)), HandleEditorChange, TimerFires]
       (boot default_config)"
  have 1: "awaiting ?s \<noteq> None" by code_simp
  have 2: "hasChanged (mgr ?s) second_doc" by code_simp
  have 3: "int (length (history (mgr (exec (SaveResolves second_doc no_caret) ?s)))) = 2"
    by code_simp
  from push_points_at_tail[OF refl 1 2 refl, of no_caret] 1 2 3 show ?thesis by simp
qed

text \<open>
  Claim C2, amended. With \<open>maxHistory \<ge> 1\<close>, after any sequence of operations the history
  holds at most \<open>maxHistory\<close> snapshots when the bound is a whole number, and at most the
  bound rounded up to a whole number otherwise. A push keeps the snapshots up to the
  position; when these already fill that number, the oldest are dropped to make room. The
  new snapshot is appended, it is the current one at \<open>position = length - 1\<close>, and the
  bound holds again.
\<close>

theorem history_bounded:
  assumes "at_least_one (maxHistory (config (mgr (boot c))))"
    and "s = run evs (boot c)"
  shows "(case maxHistory (config (mgr (boot c))) of
            Amount r \<Rightarrow> int (length (history (mgr s))) \<le> \<lceil>r\<rceil> | _ \<Rightarrow> True)
    \<and> (\<forall>k. maxHistory (config (mgr (boot c))) = Amount (of_int k) \<longrightarrow>
           int (length (history (mgr s))) \<le> k)
    \<and> (\<forall>out caret. awaiting s \<noteq> None \<and> hasChanged (mgr s) out \<longrightarrow>
         (let s' = exec (SaveResolves out caret) s;
              kept = take (nat (position (mgr s) + 1)) (history (mgr s));
              item = \<lparr>blocks = cloneBlocks out, caretBlockIndex = blockIndex caret,
                       caretOffset = offset caret\<rparr>
          in history (mgr s') =
               (case maxHistory (config (mgr (boot c))) of
                  Amount r \<Rightarrow> drop (nat (int (length kept) + 1 - \<lceil>r\<rceil>)) kept
                | _ \<Rightarrow> kept) @ [item]
             \<and> position (mgr s') = int (length (history (mgr s'))) - 1
             \<and> at_index (history (mgr s')) (position (mgr s')) = Some item
             \<and> (case maxHistory (config (mgr (boot c))) of
                   Amount r \<Rightarrow> int (length (history (mgr s'))) \<le> \<lceil>r\<rceil> | _ \<Rightarrow> True)))"
proof -
  let ?x = "maxHistory (config (mgr (boot c)))"
  have inv: "hist_inv (mgr s)" by (simp add: assms(2) reachable_inv)
  have cfg: "config (mgr s) = config (mgr (boot c))" by (simp add: assms(2) config_run)
  have b: "bounded (mgr s)"
    unfolding assms(2) using assms(1) by (intro bounded_run hist_inv_boot bounded_boot)
  have 1: "case ?x of Amount r \<Rightarrow> int (length (history (mgr s))) \<le> \<lceil>r\<rceil> | _ \<Rightarrow> True"
    using b cfg by (simp add: bounded_def)
  have 2: "bounded (mgr (exec (SaveResolves out caret) s))" for out caret
    using bounded_exec[OF inv _ b, of "SaveResolves out caret"] assms(1) cfg by simp
  have 3: "config (mgr (exec (SaveResolves out caret) s)) = config (mgr (boot c))" for out caret
    using config_exec[of "SaveResolves out caret" s] cfg by simp
  have rm: "drop (removed l ?x) xs =
      (case ?x of Amount r \<Rightarrow> drop (nat (l + 1 - \<lceil>r\<rceil>)) xs | _ \<Rightarrow> xs)" if "0 \<le> l" for l xs
    using assms(1) that
    by (auto simp: at_least_one_def removed_at_least_one removed_infinite split: amount.splits)
  show ?thesis
  proof (intro conjI allI impI)
    show "case ?x of Amount r \<Rightarrow> int (length (history (mgr s))) \<le> \<lceil>r\<rceil> | _ \<Rightarrow> True" by (rule 1)
  next
    fix k
    assume "?x = Amount (of_int k)"
    with 1 show "int (length (history (mgr s))) \<le> k" by simp
  next
    fix out caret
    assume h: "awaiting s \<noteq> None \<and> hasChanged (mgr s) out"
    from h obtain a where a: "awaiting s = Some a" by auto
    have p: "position (mgr (exec (SaveResolves out caret) s)) =
          int (length (history (mgr (exec (SaveResolves out caret) s)))) - 1"
      using save_resolves_pushes[OF a, of out caret] h
      by (simp add: push_history push_position)
    have hs: "history (mgr (exec (SaveResolves out caret) s)) =
        (case ?x of
           Amount r \<Rightarrow> drop (nat (int (length (take (nat (position (mgr s) + 1)) (history (mgr s))))
                               + 1 - \<lceil>r\<rceil>)) (take (nat (position (mgr s) + 1)) (history (mgr s)))
         | _ \<Rightarrow> take (nat (position (mgr s) + 1)) (history (mgr s))) @
        [\<lparr>blocks = cloneBlocks out, caretBlockIndex = blockIndex caret,
          caretOffset = offset caret\<rparr>]"
      using h unfolding push_history_reachable[OF inv conjunct1[OF h] conjunct2[OF h]] cfg
        rm[OF of_nat_0_le_iff]
      by simp
    have bd: "case ?x of
        Amount r \<Rightarrow> int (length (history (mgr (exec (SaveResolves out caret) s)))) \<le> \<lceil>r\<rceil>
      | _ \<Rightarrow> True"
      using 2[of out caret] unfolding bounded_def 3[of out caret] .
    have at: "at_index (history (mgr (exec (SaveResolves out caret) s)))
        (position (mgr (exec (SaveResolves out caret) s))) =
        Some \<lparr>blocks = cloneBlocks out, caretBlockIndex = blockIndex caret,
              caretOffset = offset caret\<rparr>"
      unfolding p by (subst hs)+ (simp add: at_index_def nth_append)
    show "let s' = exec (SaveResolves out caret) s;
              kept = take (nat (position (mgr s) + 1)) (history (mgr s));
              item = \<lparr>blocks = cloneBlocks out, caretBlockIndex = blockIndex caret,
                       caretOffset = offset caret\<rparr>
          in history (mgr s') =
               (case ?x of
                  Amount r \<Rightarrow> drop (nat (int (length kept) + 1 - \<lceil>r\<rceil>)) kept
                | _ \<Rightarrow> kept) @ [item]
             \<and> position (mgr s') = int (length (history (mgr s'))) - 1
             \<and> at_index (history (mgr s')) (position (mgr s')) = Some item
             \<and> (case ?x of
                   Amount r \<Rightarrow> int (length (history (mgr s'))) \<le> \<lceil>r\<rceil> | _ \<Rightarrow> True)"
      unfolding Let_def using hs p at bd by blast
  qed
qed

theorem history_bounded_witness:
  "at_least_one (maxHistory (config (mgr (boot small_config))))
   \<and> awaiting (run (two_snapshots @ [HandleEditorChange, TimerFires]) (boot small_config)) \<noteq> None
   \<and> hasChanged (mgr (run (two_snapshots @ [HandleEditorChange, TimerFires]) (boot small_config)))
        third_doc
   \<and> int (length (history (mgr (run (two_snapshots @ [HandleEditorChange, TimerFires])
        (boot small_config))))) \<le> 2
   \<and> history (mgr (exec (SaveResolves third_doc no_caret)
        (run (two_snapshots @ [HandleEditorChange, TimerFires]) (boot small_config)))) =
       [\<lparr>blocks = cloneBlocks second_doc, caretBlockIndex = None, caretOffset = None\<rparr>,
        \<lparr>blocks = cloneBlocks third_doc, caretBlockIndex = None, caretOffset = None\<rparr>]
   \<and> position (mgr (exec (SaveResolves third_doc no_caret)
        (run (two_snapshots @ [HandleEditorChange, TimerFires]) (boot small_config)))) = 1
   \<and> at_least_one (maxHistory (config (mgr (boot fractional_config))))
   \<and> int (length (history (mgr (run three_snapshots (boot fractional_config))))) \<le> 3"
proof -
  let ?s = "run (two_snapshots @ [HandleEditorChange, TimerFires]) (boot small_config)"
  have h1: "at_least_one (maxHistory (config (mgr (boot small_config))))" by code_simp
  have h2: "awaiting ?s \<noteq> None \<and> hasChanged (mgr ?s) third_doc" by code_simp
  have m: "maxHistory (config (mgr (boot small_config))) = Amount 2" by code_simp
  have k: "take (nat (position (mgr ?s) + 1)) (history (mgr ?s)) =
      [\<lparr>blocks = cloneBlocks first_doc, caretBlockIndex = None, caretOffset = None\<rparr>,
       \<lparr>blocks = cloneBlocks second_doc, caretBlockIndex = None, caretOffset = None\<rparr>]" by code_simp
  have n: "blockIndex no_caret = None" "offset no_caret = None" by (simp_all add: no_caret_def)
  note t = history_bounded[OF h1 refl, of "two_snapshots @ [HandleEditorChange, TimerFires]"]
  from t have "case Amount 2 of Amount r \<Rightarrow> int (length (history (mgr ?s))) \<le> \<lceil>r\<rceil> | _ \<Rightarrow> True"
    unfolding m by (rule conjunct1)
  then have a: "int (length (history (mgr ?s))) \<le> 2" by simp
  from t h2 have b: "let s' = exec (SaveResolves third_doc no_caret) ?s;
              kept = take (nat (position (mgr ?s) + 1)) (history (mgr ?s));
              item = \<lparr>blocks = cloneBlocks third_doc, caretBlockIndex = blockIndex no_caret,
                       caretOffset = offset no_caret\<rparr>
          in history (mgr s') =
               (case maxHistory (config (mgr (boot small_config))) of
                  Amount r \<Rightarrow> drop (nat (int (length kept) + 1 - \<lceil>r\<rceil>)) kept
                | _ \<Rightarrow> kept) @ [item]
             \<and> position (mgr s') = int (length (history (mgr s'))) - 1
             \<and> at_index (history (mgr s')) (position (mgr s')) = Some item
             \<and> (case maxHistory (config (mgr (boot small_config))) of
                   Amount r \<Rightarrow> int (length (history (mgr s'))) \<le> \<lceil>r\<rceil> | _ \<Rightarrow> True)"
    by blast
  from b have c: "history (mgr (exec (SaveResolves third_doc no_caret) ?s)) =
       [\<lparr>blocks = cloneBlocks second_doc, caretBlockIndex = None, caretOffset = None\<rparr>,
        \<lparr>blocks = cloneBlocks third_doc, caretBlockIndex = None, caretOffset = None\<rparr>]"
    and d: "position (mgr (exec (SaveResolves third_doc no_caret) ?s)) =
       int (length (history (mgr (exec (SaveResolves third_doc no_caret) ?s)))) - 1"
    unfolding Let_def k m n by simp_all
  have f1: "at_least_one (maxHistory (config (mgr (boot fractional_config))))" by code_simp
  have fm: "maxHistory (config (mgr (boot fractional_config))) = Amount (5 / 2)" by code_simp
  have fc: "\<lceil>5 / 2 :: rat\<rceil> = 3" by code_simp
  from history_bounded[OF f1 refl, of three_snapshots]
  have "case Amount (5 / 2) of
      Amount r \<Rightarrow> int (length (history (mgr (run three_snapshots (boot fractional_config))))) \<le> \<lceil>r\<rceil>
    | _ \<Rightarrow> True"
    unfolding fm by (rule conjunct1)
  then have e: "int (length (history (mgr (run three_snapshots (boot fractional_config))))) \<le> 3"
    by (simp add: fc)
  from h1 h2 a c d f1 e show ?thesis by simp
qed

text \<open>
  Claim C2 as worded fails: with the bound two and a half, three pushes leave three
  snapshots.
\<close>

theorem history_bounded_counterexample:
  "at_least_one (maxHistory (config (mgr (boot fractional_config))))
   \<and> maxHistory (config (mgr (boot fractional_config))) = Amount (5 / 2)
   \<and> length (history (mgr (run three_snapshots (boot fractional_config)))) = 3
   \<and> \<not> length_ge 2 (maxHistory (config (mgr (boot fractional_config))))
   \<and> \<not> rat_of_nat (length (history (mgr (run three_snapshots (boot fractional_config))))) \<le> 5 / 2"
  by code_simp

text \<open>
  Claim C3. A push made while \<open>position < length - 1\<close> discards every snapshot after the
  position: the new history is made of snapshots at indices up to the position (all of
  them, or the newest of them when the bound is reached) and then the new snapshot.
\<close>

theorem push_discards_redo_branch:
  assumes "s = run evs (boot c)"
    and "awaiting s \<noteq> None"
    and "hasChanged (mgr s) out"
    and "position (mgr s) < int (length (history (mgr s))) - 1"
    and "s' = exec (SaveResolves out caret) s"
  shows "history (mgr s') =
     drop (case maxHistory (config (mgr s)) of
             Amount r \<Rightarrow> if r \<le> of_int (position (mgr s) + 1)
                         then nat \<lfloor>of_int (position (mgr s) + 2) - r\<rfloor> else 0
           | MinusInfinity \<Rightarrow> nat (position (mgr s) + 1)
           | _ \<Rightarrow> 0)
       (take (nat (position (mgr s) + 1)) (history (mgr s))) @
     [\<lparr>blocks = cloneBlocks out, caretBlockIndex = blockIndex caret, caretOffset = offset caret\<rparr>]"
proof -
  have inv: "hist_inv (mgr s)" by (simp add: assms(1) reachable_inv)
  then have len: "int (length (take (nat (position (mgr s) + 1)) (history (mgr s)))) = position (mgr s) + 1"
    using assms(4) by (simp add: hist_inv_def min_def)
  have e: "of_int (position (mgr s) + 1) - r + 1 = of_int (position (mgr s) + 2) - r" for r :: rat
    by simp
  have "history (mgr s') =
      drop (removed (position (mgr s) + 1) (maxHistory (config (mgr s))))
        (take (nat (position (mgr s) + 1)) (history (mgr s))) @
      [\<lparr>blocks = cloneBlocks out, caretBlockIndex = blockIndex caret, caretOffset = offset caret\<rparr>]"
    unfolding assms(5) push_history_reachable[OF inv assms(2,3)] len by (rule refl)
  then show ?thesis
    unfolding drop_removed[OF len] e by simp
qed

theorem push_discards_redo_branch_witness:
  "awaiting (run (two_snapshots @ [Undo, HandleEditorChange, TimerFires]) (boot default_config)) \<noteq> None
   \<and> hasChanged (mgr (run (two_snapshots @ [Undo, HandleEditorChange, TimerFires])
        (boot default_config))) third_doc
   \<and> position (mgr (run (two_snapshots @ [Undo, HandleEditorChange, TimerFires])
        (boot default_config)))
       < int (length (history (mgr (run (two_snapshots @ [Undo, HandleEditorChange, TimerFires])
        (boot default_config))))) - 1
   \<and> history (mgr (exec (SaveResolves third_doc no_caret)
        (run (two_snapshots @ [Undo, HandleEditorChange, TimerFires]) (boot default_config)))) =
       [\<lparr>blocks = cloneBlocks first_doc, caretBlockIndex = None, caretOffset = None\<rparr>,
        \<lparr>blocks = cloneBlocks third_doc, caretBlockIndex = None, caretOffset = None\<rparr>]"
proof -
  let ?s = "run (two_snapshots @ [Undo, HandleEditorChange, TimerFires]) (boot default_config)"
  have h1: "awaiting ?s \<noteq> None" by code_simp
  have h2: "hasChanged (mgr ?s) third_doc" by code_simp
  have h3: "position (mgr ?s) < int (length (history (mgr ?s))) - 1" by code_simp
  have p: "position (mgr ?s) = 0" by code_simp
  have m: "maxHistory (config (mgr ?s)) = Amount 100" by code_simp
  have k: "take (Suc 0) (history (mgr ?s)) =
      [\<lparr>blocks = cloneBlocks first_doc, caretBlockIndex = None, caretOffset = None\<rparr>]" by code_simp
  have n: "blockIndex no_caret = None" "offset no_caret = None" by (simp_all add: no_caret_def)
  from push_discards_redo_branch[OF refl h1 h2 h3 refl, of no_caret]
  have "history (mgr (exec (SaveResolves third_doc no_caret) ?s)) =
       [\<lparr>blocks = cloneBlocks first_doc, caretBlockIndex = None, caretOffset = None\<rparr>,
        \<lparr>blocks = cloneBlocks third_doc, caretBlockIndex = None, caretOffset = None\<rparr>]"
    unfolding p m n by (simp add: k)
  with h1 h2 h3 show ?thesis by simp
qed

subsection \<open>Initialisation\<close>


subsection \<open>Navigation\<close>

lemma undo_noop: "\<not> canUndo m \<Longrightarrow> undo m = (Resolved, m)"
  by (simp add: undo_def)

lemma redo_noop: "\<not> canRedo m \<Longrightarrow> redo m = (Resolved, m)"
  by (simp add: redo_def)

lemma undo_step:
  assumes "hist_inv m" and "canUndo m"
  shows "undo m = (Resolved, notify (restore (history m ! nat (position m - 1)) (m\<lparr>position := position m - 1\<rparr>)))"
  using assms by (simp add: undo_def hist_inv_def canUndo_def at_index_def Let_def)

lemma redo_step:
  assumes "canRedo m"
  shows "redo m = (Resolved, notify (restore (history m ! nat (position m + 1)) (m\<lparr>position := position m + 1\<rparr>)))"
  using assms by (simp add: redo_def canRedo_def at_index_def Let_def)

text \<open>
  Claim C8. After any sequence of operations, \<open>undo()\<close> with \<open>canUndo()\<close> false and
  \<open>redo()\<close> with \<open>canRedo()\<close> false resolve and leave the whole manager as it was, the
  log of notifications included; an \<open>undo()\<close> or \<open>redo()\<close> that can move resolves, moves
  the position by one and calls the observer exactly once, with the new state.
\<close>

theorem navigation_noop_or_one_notification:
  assumes "m = mgr (run evs (boot c))"
  shows "(\<not> canUndo m \<longrightarrow> undo m = (Resolved, m))
    \<and> (\<not> canRedo m \<longrightarrow> redo m = (Resolved, m))
    \<and> (canUndo m \<longrightarrow> fst (undo m) = Resolved
          \<and> notified (snd (undo m)) = notified m @ [getState (snd (undo m))]
          \<and> position (snd (undo m)) = position m - 1)
    \<and> (canRedo m \<longrightarrow> fst (redo m) = Resolved
          \<and> notified (snd (redo m)) = notified m @ [getState (snd (redo m))]
          \<and> position (snd (redo m)) = position m + 1)"
proof -
  have inv: "hist_inv m" by (simp add: assms reachable_inv)
  show ?thesis
    by (auto simp: undo_noop redo_noop undo_step[OF inv] redo_step notify_def restore_def
        getState_def canUndo_def canRedo_def)
qed

theorem navigation_noop_or_one_notification_witness:
  "canUndo (mgr (run two_snapshots (boot default_config)))
   \<and> \<not> canRedo (mgr (run two_snapshots (boot default_config)))
   \<and> redo (mgr (run two_snapshots (boot default_config))) =
       (Resolved, mgr (run two_snapshots (boot default_config)))
   \<and> fst (undo (mgr (run two_snapshots (boot default_config)))) = Resolved
   \<and> notified (snd (undo (mgr (run two_snapshots (boot default_config))))) =
       notified (mgr (run two_snapshots (boot default_config))) @
       [\<lparr>state_position = 0, state_count = 2, state_canUndo = False, state_canRedo = True\<rparr>]
   \<and> \<not> canUndo (mgr (run (two_snapshots @ [Undo]) (boot default_config)))
   \<and> canRedo (mgr (run (two_snapshots @ [Undo]) (boot default_config)))
   \<and> undo (mgr (run (two_snapshots @ [Undo]) (boot default_config))) =
       (Resolved, mgr (run (two_snapshots @ [Undo]) (boot default_config)))
   \<and> fst (redo (mgr (run (two_snapshots @ [Undo]) (boot default_config)))) = Resolved
   \<and> notified (snd (redo (mgr (run (two_snapshots @ [Undo]) (boot default_config))))) =
       notified (mgr (run (two_snapshots @ [Undo]) (boot default_config))) @
       [\<lparr>state_position = 1, state_count = 2, state_canUndo = True, state_canRedo = False\<rparr>]"
proof -
  let ?m = "mgr (run two_snapshots (boot default_config))"
  let ?n = "mgr (run (two_snapshots @ [Undo]) (boot default_config))"
  have m: "canUndo ?m" "\<not> canRedo ?m" by code_simp+
  have n: "\<not> canUndo ?n" "canRedo ?n" by code_simp+
  have gm: "getState (snd (undo ?m)) =
      \<lparr>state_position = 0, state_count = 2, state_canUndo = False, state_canRedo = True\<rparr>"
    by code_simp
  have gn: "getState (snd (redo ?n)) =
      \<lparr>state_position = 1, state_count = 2, state_canUndo = True, state_canRedo = False\<rparr>"
    by code_simp
  from navigation_noop_or_one_notification[OF refl, of two_snapshots default_config]
    navigation_noop_or_one_notification[OF refl, of "two_snapshots @ [Undo]" default_config]
    m n gm gn
  show ?thesis by simp
qed

text \<open>
  Claim C9. After any sequence of operations with \<open>canUndo()\<close> true, \<open>undo()\<close> followed by
  \<open>redo()\<close> both resolve, \<open>getState()\<close> and the history are what they were before the
  undo, and the blocks the redo hands to the host are those of the snapshot that was
  current before the undo.
\<close>

theorem undo_redo_round_trip:
  assumes "m = mgr (run evs (boot c))" and "canUndo m"
  shows "fst (undo m) = Resolved
    \<and> fst (redo (snd (undo m))) = Resolved
    \<and> getState (snd (redo (snd (undo m)))) = getState m
    \<and> history (snd (redo (snd (undo m)))) = history m
    \<and> (\<exists>item. at_index (history m) (position m) = Some item
          \<and> rendered (snd (redo (snd (undo m)))) = rendered (snd (undo m)) @ [blocks item])"
proof -
  have inv: "hist_inv m" by (simp add: assms reachable_inv)
  let ?m1 = "snd (undo m)"
  have u: "undo m = (Resolved, notify (restore (history m ! nat (position m - 1)) (m\<lparr>position := position m - 1\<rparr>)))"
    by (rule undo_step[OF inv assms(2)])
  have p1: "position ?m1 = position m - 1" and h1: "history ?m1 = history m"
    by (simp_all add: u notify_def restore_def)
  have r: "canRedo ?m1"
    using inv assms(2) by (simp add: canRedo_def p1 h1 hist_inv_def canUndo_def)
  let ?m2 = "snd (redo ?m1)"
  have rs: "redo ?m1 = (Resolved, notify (restore (history ?m1 ! nat (position ?m1 + 1))
      (?m1\<lparr>position := position ?m1 + 1\<rparr>)))"
    by (rule redo_step[OF r])
  have p2: "position ?m2 = position m" and h2: "history ?m2 = history m"
    and r2: "rendered ?m2 = rendered ?m1 @ [blocks (history m ! nat (position m))]"
    unfolding rs by (simp_all add: notify_def restore_def p1 h1 cloneBlocks_raw)
  have at: "at_index (history m) (position m) = Some (history m ! nat (position m))"
    using inv assms(2) by (simp add: at_index_def hist_inv_def canUndo_def)
  have g: "getState ?m2 = getState m"
    by (simp add: getState_def canUndo_def canRedo_def p2 h2)
  have f1: "fst (undo m) = Resolved" by (simp add: u)
  have f2: "fst (redo ?m1) = Resolved" unfolding rs by simp
  show ?thesis
    using f1 f2 g h2 at r2 by simp
qed

theorem undo_redo_round_trip_witness:
  "canUndo (mgr (run two_snapshots (boot default_config)))
   \<and> getState (snd (redo (snd (undo (mgr (run two_snapshots (boot default_config))))))) =
       \<lparr>state_position = 1, state_count = 2, state_canUndo = True, state_canRedo = False\<rparr>
   \<and> getState (mgr (run two_snapshots (boot default_config))) =
       \<lparr>state_position = 1, state_count = 2, state_canUndo = True, state_canRedo = False\<rparr>
   \<and> rendered (snd (redo (snd (undo (mgr (run two_snapshots (boot default_config))))))) =
       [cloneBlocks first_doc, cloneBlocks second_doc]"
proof -
  let ?m = "mgr (run two_snapshots (boot default_config))"
  have h: "canUndo ?m" by code_simp
  have g: "getState ?m =
      \<lparr>state_position = 1, state_count = 2, state_canUndo = True, state_canRedo = False\<rparr>"
    by code_simp
  have a: "at_index (history ?m) (position ?m) =
      Some \<lparr>blocks = cloneBlocks second_doc, caretBlockIndex = None, caretOffset = None\<rparr>"
    by code_simp
  have r: "rendered (snd (undo ?m)) = [cloneBlocks first_doc]" by code_simp
  from undo_redo_round_trip[OF refl h] h g a r show ?thesis by auto
qed

subsection \<open>Shortcuts\<close>

lemma pop_normalized:
  "pop xs = (if xs = [] then None else Some (last xs), butlast xs)"
  by (simp add: pop_def)

lemma matchesShortcut_iff:
  "matchesShortcut event shortcut \<longleftrightarrow>
     (let tokens = map (\<lambda>part. toLowerCase (trim part))
                     (case shortcut of Tokens ts \<Rightarrow> ts | Combo s \<Rightarrow> split_plus s);
          required = butlast tokens
      in tokens \<noteq> [] \<and> last tokens \<noteq> []
         \<and> (ctrlKey event = (''ctrl'' \<in> set required \<or> ''control'' \<in> set required))
         \<and> (metaKey event = (''cmd'' \<in> set required \<or> ''meta'' \<in> set required))
         \<and> (altKey event = (''alt'' \<in> set required))
         \<and> (shiftKey event = (''shift'' \<in> set required))
         \<and> toLowerCase (key event) = last tokens)"
  unfolding matchesShortcut_def Let_def pop_normalized array_includes_def
  by (auto split: prod.splits)

lemma ctrl_z_tokens:
  "map (\<lambda>part. toLowerCase (trim part)) (split_plus ''CTRL+Z'') = [''ctrl'', ''z'']"
  by code_simp

text \<open>
  Claim C7, amended. With every token of the definition trimmed and lowercased, a shortcut
  matches exactly when the definition has a last token that is not empty, each of ctrl
  (or control), cmd (or meta), alt and shift is pressed if and only if it is among the
  tokens before the last, and the event's key in lower case is the last token. An event
  with Ctrl and Shift pressed never matches \<open>CTRL+Z\<close>.
\<close>

theorem matchesShortcut_exact:
  "(matchesShortcut event shortcut \<longleftrightarrow>
     (let tokens = map (\<lambda>part. toLowerCase (trim part))
                     (case shortcut of Tokens ts \<Rightarrow> ts | Combo s \<Rightarrow> split_plus s);
          required = butlast tokens
      in tokens \<noteq> [] \<and> last tokens \<noteq> []
         \<and> (ctrlKey event = (''ctrl'' \<in> set required \<or> ''control'' \<in> set required))
         \<and> (metaKey event = (''cmd'' \<in> set required \<or> ''meta'' \<in> set required))
         \<and> (altKey event = (''alt'' \<in> set required))
         \<and> (shiftKey event = (''shift'' \<in> set required))
         \<and> toLowerCase (key event) = last tokens))
   \<and> (ctrlKey event \<and> shiftKey event \<longrightarrow> \<not> matchesShortcut event (Combo ''CTRL+Z''))"
proof (intro conjI impI)
  assume a: "ctrlKey event \<and> shiftKey event"
  have "matchesShortcut event (Combo ''CTRL+Z'') \<longrightarrow> shiftKey event = (''shift'' \<in> set [''ctrl''])"
    unfolding matchesShortcut_iff[of event "Combo ''CTRL+Z''"] Let_def
    by (simp only: ShortcutDefinition.case ctrl_z_tokens butlast.simps) simp
  with a show "\<not> matchesShortcut event (Combo ''CTRL+Z'')" by auto
qed (rule matchesShortcut_iff)

theorem matchesShortcut_exact_witness:
  "ctrlKey (key_event ''Z'' True False False True) \<and> shiftKey (key_event ''Z'' True False False True)
   \<and> \<not> matchesShortcut (key_event ''Z'' True False False True) (Combo ''CTRL+Z'')
   \<and> matchesShortcut (key_event ''Z'' True False False True) (Combo ''CTRL+SHIFT+Z'')"
proof -
  have h: "ctrlKey (key_event ''Z'' True False False True) \<and> shiftKey (key_event ''Z'' True False False True)"
    by (simp add: key_event_def)
  have t: "map (\<lambda>part. toLowerCase (trim part)) (split_plus ''CTRL+SHIFT+Z'') = [''ctrl'', ''shift'', ''z'']"
    by code_simp
  have k: "toLowerCase (key (key_event ''Z'' True False False True)) = ''z''" by code_simp
  have m: "matchesShortcut (key_event ''Z'' True False False True) (Combo ''CTRL+SHIFT+Z'')"
    unfolding conjunct1[OF matchesShortcut_exact[of "key_event ''Z'' True False False True" "Combo ''CTRL+SHIFT+Z''"]] Let_def
    by (simp only: ShortcutDefinition.case t k) (simp add: key_event_def)
  from matchesShortcut_exact[of "key_event ''Z'' True False False True" "Combo ''CTRL+Z''"] h m
  show ?thesis by blast
qed

text \<open>
  Claim C7 as worded: the key need only equal the last token without regard to case.
  The matcher trims the token first and rejects an empty one: Ctrl+Space against the
  tokens \<open>CTRL\<close> and a space, and an event without a key against \<open>CTRL+\<close>, satisfy the
  wording and do not match.
\<close>

theorem shortcut_match_counterexample:
  "spec_matchesShortcut (key_event '' '' True False False False) (Tokens [''CTRL'', '' ''])
   \<and> \<not> matchesShortcut (key_event '' '' True False False False) (Tokens [''CTRL'', '' ''])
   \<and> spec_matchesShortcut (key_event [] True False False False) (Combo ''CTRL+'')
   \<and> \<not> matchesShortcut (key_event [] True False False False) (Combo ''CTRL+'')"
  by code_simp

subsection \<open>The debounced saver\<close>

lemma isSaving_simps:
  "isSaving (initialize d m) = isSaving m"
  "isSaving (snd (undo m)) = isSaving m"
  "isSaving (snd (redo m)) = isSaving m"
  "isSaving (handleKeyDown e m) = isSaving m"
  "isSaving (captureSnapshot_resume out caret m) = False"
  "isSaving (captureSnapshot_begin m) = True"
  "isSaving (captureSnapshot_reject m) = False"
  by (simp_all add: initialize_def notify_def undo_def redo_def restore_def handleKeyDown_def
      captureSnapshot_resume_def captureSnapshot_begin_def captureSnapshot_reject_def Let_def
      split: option.splits)

lemma pendingSave_simps:
  "pendingSave (initialize d m) = pendingSave m"
  "pendingSave (snd (undo m)) = pendingSave m"
  "pendingSave (snd (redo m)) = pendingSave m"
  "pendingSave (handleKeyDown e m) = pendingSave m"
  "pendingSave (captureSnapshot_resume out caret m) = pendingSave m"
  "pendingSave (captureSnapshot_begin m) = pendingSave m"
  "pendingSave (captureSnapshot_reject m) = pendingSave m"
  by (simp_all add: initialize_def notify_def undo_def redo_def restore_def handleKeyDown_def
      captureSnapshot_resume_def captureSnapshot_begin_def captureSnapshot_reject_def Let_def
      push_def trimHistory_def split: option.splits)

lemma sched_inv_exec: "sched_inv s \<Longrightarrow> sched_inv (exec e s)"
  by (cases e)
    (auto simp: sched_inv_def isSaving_simps handleEditorChange_def timer_fires_def
      save_resolves_def save_rejects_def Let_def less_Suc_eq
      split: option.splits prod.splits)

lemma sched_inv_run: "sched_inv s \<Longrightarrow> sched_inv (run evs s)"
  unfolding run_def by (induction evs arbitrary: s) (simp_all add: sched_inv_exec)

lemma sched_inv_boot: "sched_inv (boot c)"
  by (simp add: sched_inv_def boot_def constructor_def)

lemma reachable_sched_inv: "sched_inv (run evs (boot c))"
  by (simp add: sched_inv_run sched_inv_boot)

text \<open>No event resolves such a call: a superseded call stays unresolved for ever.\<close>

lemma orphan_exec: "orphan i s \<Longrightarrow> orphan i (exec e s)"
  by (cases e)
    (auto simp: orphan_def handleEditorChange_def timer_fires_def
      save_resolves_def save_rejects_def Let_def
      split: option.splits prod.splits)

lemma orphan_run: "orphan i s \<Longrightarrow> orphan i (run evs s)"
  unfolding run_def by (induction evs arbitrary: s) (simp_all add: orphan_exec)

lemma superseded_never_resolves:
  assumes "timeout s = Some i" and "sched_inv s"
  shows "i \<notin> set (resolved (run evs (exec HandleEditorChange s)))"
proof -
  have "orphan i (exec HandleEditorChange s)"
    using assms by (auto simp: orphan_def sched_inv_def handleEditorChange_def split: option.splits)
  then show ?thesis using orphan_run[of i _ evs] by (simp add: orphan_def)
qed

text \<open>
  Claim C5. A request whose timer fires during the first capture of an invocation is
  followed up: the chained capture starts when the first has completed. A request whose
  timer fires during the chained capture only sets \<open>pendingSave\<close>: when the chained
  capture has completed the saver returns, no capture is in flight, no timer is armed and
  the flag is still set.
\<close>

theorem request_during_chained_capture_dropped:
  "awaiting (run (butlast dropped_request) (boot default_config)) = Some (Chained, 0)
   \<and> pendingSave (mgr (run (butlast dropped_request) (boot default_config)))
   \<and> resolved (run (butlast dropped_request) (boot default_config)) = [1, 2]
   \<and> awaiting (run dropped_request (boot default_config)) = None
   \<and> timeout (run dropped_request (boot default_config)) = None
   \<and> \<not> isSaving (mgr (run dropped_request (boot default_config)))
   \<and> pendingSave (mgr (run dropped_request (boot default_config)))
   \<and> resolved (run dropped_request (boot default_config)) = [1, 2, 0]
   \<and> map blocks (history (mgr (run dropped_request (boot default_config)))) =
       [cloneBlocks first_doc, cloneBlocks second_doc, cloneBlocks third_doc]"
  by code_simp

text \<open>
  Claim C6, amended. After any sequence of operations: when the timer of call \<open>i\<close> fires
  with no capture in flight, the saver is suspended for \<open>i\<close> and its promise is not
  resolved; while the saver is suspended for \<open>i\<close> the promise stays unresolved, and when
  the save resolves it is resolved in that turn with no capture left in flight, unless
  the saver was in its first capture with \<open>pendingSave\<close> set, in which case the chained
  capture starts and the promise stays unresolved. When the timer of call \<open>i\<close> fires
  during a capture in flight, \<open>pendingSave\<close> is set and the promise is resolved at once.
\<close>

theorem promise_resolution:
  assumes "s = run evs (boot c)"
  shows "(timeout s = Some i \<and> \<not> isSaving (mgr s) \<longrightarrow>
            awaiting (exec TimerFires s) = Some (First, i)
            \<and> i \<notin> set (resolved (exec TimerFires s)))
    \<and> (timeout s = Some i \<and> isSaving (mgr s) \<longrightarrow>
            resolved (exec TimerFires s) = resolved s @ [i]
            \<and> pendingSave (mgr (exec TimerFires s))
            \<and> awaiting (exec TimerFires s) = awaiting s)
    \<and> (awaiting s = Some (ph, i) \<longrightarrow>
            i \<notin> set (resolved s)
            \<and> (if ph = First \<and> pendingSave (mgr s)
                then awaiting (exec (SaveResolves out caret) s) = Some (Chained, i)
                     \<and> i \<notin> set (resolved (exec (SaveResolves out caret) s))
                else awaiting (exec (SaveResolves out caret) s) = None
                     \<and> \<not> isSaving (mgr (exec (SaveResolves out caret) s))
                     \<and> resolved (exec (SaveResolves out caret) s) = resolved s @ [i]))"
proof -
  have inv: "sched_inv s" by (simp add: assms reachable_sched_inv)
  show ?thesis
    using inv
    by (auto simp: sched_inv_def timer_fires_def save_resolves_def Let_def isSaving_simps
        pendingSave_simps captureSnapshot_begin_def split: option.splits)
qed

theorem promise_resolution_witness:
  "timeout (run [HandleEditorChange] (boot default_config)) = Some 0
   \<and> \<not> isSaving (mgr (run [HandleEditorChange] (boot default_config)))
   \<and> awaiting (exec TimerFires (run [HandleEditorChange] (boot default_config))) = Some (First, 0)
   \<and> 0 \<notin> set (resolved (exec TimerFires (run [HandleEditorChange] (boot default_config))))
   \<and> timeout (run [HandleEditorChange, TimerFires, HandleEditorChange] (boot default_config)) = Some 1
   \<and> isSaving (mgr (run [HandleEditorChange, TimerFires, HandleEditorChange] (boot default_config)))
   \<and> resolved (exec TimerFires
         (run [HandleEditorChange, TimerFires, HandleEditorChange] (boot default_config))) = [1]
   \<and> awaiting (run [HandleEditorChange, TimerFires, HandleEditorChange, TimerFires]
         (boot default_config)) = Some (First, 0)
   \<and> pendingSave (mgr (run [HandleEditorChange, TimerFires, HandleEditorChange, TimerFires]
         (boot default_config)))
   \<and> awaiting (exec (SaveResolves first_doc no_caret)
         (run [HandleEditorChange, TimerFires, HandleEditorChange, TimerFires]
           (boot default_config))) = Some (Chained, 0)
   \<and> awaiting (run [HandleEditorChange, TimerFires] (boot default_config)) = Some (First, 0)
   \<and> \<not> pendingSave (mgr (run [HandleEditorChange, TimerFires] (boot default_config)))
   \<and> resolved (exec (SaveResolves first_doc no_caret)
         (run [HandleEditorChange, TimerFires] (boot default_config))) = [0]"
proof -
  let ?a = "run [HandleEditorChange] (boot default_config)"
  let ?b = "run [HandleEditorChange, TimerFires, HandleEditorChange] (boot default_config)"
  let ?c = "run [HandleEditorChange, TimerFires, HandleEditorChange, TimerFires] (boot default_config)"
  let ?d = "run [HandleEditorChange, TimerFires] (boot default_config)"
  have a: "timeout ?a = Some 0 \<and> \<not> isSaving (mgr ?a)" by code_simp
  have b: "timeout ?b = Some 1 \<and> isSaving (mgr ?b)" "resolved ?b = []" by code_simp+
  have c: "awaiting ?c = Some (First, 0)" "pendingSave (mgr ?c)" by code_simp+
  have d: "awaiting ?d = Some (First, 0)" "\<not> pendingSave (mgr ?d)" "resolved ?d = []" by code_simp+
  from promise_resolution[OF refl, of "[HandleEditorChange]" default_config 0] a
  have 1: "awaiting (exec TimerFires ?a) = Some (First, 0) \<and> 0 \<notin> set (resolved (exec TimerFires ?a))"
    by blast
  from promise_resolution[OF refl, of "[HandleEditorChange, TimerFires, HandleEditorChange]" default_config 1] b
  have 2: "resolved (exec TimerFires ?b) = [1]" by simp
  from promise_resolution[OF refl, of "[HandleEditorChange, TimerFires, HandleEditorChange, TimerFires]"
      default_config 0 First first_doc no_caret] c
  have 3: "awaiting (exec (SaveResolves first_doc no_caret) ?c) = Some (Chained, 0)" by simp
  from promise_resolution[OF refl, of "[HandleEditorChange, TimerFires]"
      default_config 0 First first_doc no_caret] d
  have 4: "resolved (exec (SaveResolves first_doc no_caret) ?d) = [0]" by simp
  from a b c d 1 2 3 4 show ?thesis by simp
qed

text \<open>
  Claim C6 as worded fails twice.
  Two calls followed by the timer and the save: the system is idle and the promise of the
  first, superseded call is not resolved. A call whose timer fires during a capture is
  resolved while that capture is still in flight and nothing has been pushed.
\<close>

theorem promise_resolution_counterexample:
  "timeout (run [HandleEditorChange, HandleEditorChange, TimerFires, SaveResolves first_doc no_caret]
       (boot default_config)) = None
   \<and> awaiting (run [HandleEditorChange, HandleEditorChange, TimerFires, SaveResolves first_doc no_caret]
       (boot default_config)) = None
   \<and> calls (run [HandleEditorChange, HandleEditorChange, TimerFires, SaveResolves first_doc no_caret]
       (boot default_config)) = 2
   \<and> resolved (run [HandleEditorChange, HandleEditorChange, TimerFires, SaveResolves first_doc no_caret]
       (boot default_config)) = [1]
   \<and> resolved (run [HandleEditorChange, TimerFires, HandleEditorChange, TimerFires]
       (boot default_config)) = [1]
   \<and> awaiting (run [HandleEditorChange, TimerFires, HandleEditorChange, TimerFires]
       (boot default_config)) = Some (First, 0)
   \<and> isSaving (mgr (run [HandleEditorChange, TimerFires, HandleEditorChange, TimerFires]
       (boot default_config)))
   \<and> history (mgr (run [HandleEditorChange, TimerFires, HandleEditorChange, TimerFires]
       (boot default_config))) = []"
  by code_simp

end
